theory Spec2Isabelle
  imports Main "HOL-Library.Multiset"
begin

section \<open>State and action model of the sliding-tile puzzle\<close>

text \<open>
  The notebook keeps a puzzle state in a two-dimensional integer array. The array is
  modelled by the list of its rows; a cell index is a pair of Python integers (row,
  column). An \<open>Action\<close> is the named tuple of two cell indices.
  Every Python exception that the modelled code can raise is a value of
  \<open>py_error\<close>; a function that can raise returns \<open>py_error + 'a\<close>.
\<close>

datatype py_error = IndexError

type_synonym grid = "int list list"

type_synonym pos = "int \<times> int"

datatype action = Action (pos1: pos) (pos2: pos)

text \<open>Shape of an array: number of rows, and number of columns (read from the first row).\<close>

definition nrows :: "grid \<Rightarrow> nat" where
  "nrows s = length s"

definition ncols :: "grid \<Rightarrow> nat" where
  "ncols s = (case s of [] \<Rightarrow> 0 | r # _ \<Rightarrow> length r)"

text \<open>An array of shape \<open>(m, n)\<close>: \<open>m\<close> rows, each of length \<open>n\<close>.\<close>

definition has_shape :: "nat \<Rightarrow> nat \<Rightarrow> grid \<Rightarrow> bool" where
  "has_shape m n s = (length s = m \<and> list_all (\<lambda>r. length r = n) s)"

text \<open>
  Array indexing along one axis of length \<open>n\<close>: an index in \<open>[0, n)\<close> is used as it
  is, an index in \<open>[-n, 0)\<close> counts from the end, anything else raises IndexError.
\<close>

definition norm_index :: "nat \<Rightarrow> int \<Rightarrow> nat option" where
  "norm_index n i =
     (if 0 \<le> i \<and> i < int n then Some (nat i)
      else if - int n \<le> i \<and> i < 0 then Some (nat (i + int n))
      else None)"

definition getitem :: "grid \<Rightarrow> pos \<Rightarrow> py_error + int" where
  "getitem s p =
     (case norm_index (length s) (fst p) of
        None \<Rightarrow> Inl IndexError
      | Some r \<Rightarrow>
          (case norm_index (length (s ! r)) (snd p) of
             None \<Rightarrow> Inl IndexError
           | Some c \<Rightarrow> Inr (s ! r ! c)))"

definition setitem :: "grid \<Rightarrow> pos \<Rightarrow> int \<Rightarrow> py_error + grid" where
  "setitem s p v =
     (case norm_index (length s) (fst p) of
        None \<Rightarrow> Inl IndexError
      | Some r \<Rightarrow>
          (case norm_index (length (s ! r)) (snd p) of
             None \<Rightarrow> Inl IndexError
           | Some c \<Rightarrow> Inr (s[r := (s ! r)[c := v]])))"

text \<open>
  \<open>np.where(a == v)\<close> lists the matching cells in row-major order; the code always
  takes the first one. \<open>first_index\<close> is the same on a one-dimensional line.
\<close>

fun first_index :: "int list \<Rightarrow> int \<Rightarrow> nat option" where
  "first_index [] v = None"
| "first_index (x # xs) v = (if x = v then Some 0 else map_option Suc (first_index xs v))"

fun where_first :: "grid \<Rightarrow> int \<Rightarrow> (nat \<times> nat) option" where
  "where_first [] v = None"
| "where_first (r # rs) v =
     (case first_index r v of
        Some c \<Rightarrow> Some (0, c)
      | None \<Rightarrow> map_option (\<lambda>(i, j). (Suc i, j)) (where_first rs v))"

text \<open>
  \<open>available_actions\<close>: locate the blank (the first cell holding 0; IndexError when
  there is none), then one action per neighbour, in the order up, down, left, right.
  Both bounds are tested against \<open>state.shape[0]\<close>.
\<close>

definition available_actions :: "grid \<Rightarrow> py_error + action list" where
  "available_actions s =
     (case where_first s 0 of
        None \<Rightarrow> Inl IndexError
      | Some (xn, yn) \<Rightarrow>
          (let x = int xn; y = int yn; puzzle_dim = int (length s) in
           Inr ((if x > 0 then [Action (x, y) (x - 1, y)] else []) @
                (if x < puzzle_dim - 1 then [Action (x, y) (x + 1, y)] else []) @
                (if y > 0 then [Action (x, y) (x, y - 1)] else []) @
                (if y < puzzle_dim - 1 then [Action (x, y) (x, y + 1)] else []))))"

text \<open>
  \<open>do_action\<close> works on a copy of its argument. The right-hand side of the tuple
  assignment is read first (cell \<open>pos2\<close>, then cell \<open>pos1\<close>), then the two cells are
  written (cell \<open>pos1\<close>, then cell \<open>pos2\<close>).
\<close>

definition do_action :: "grid \<Rightarrow> action \<Rightarrow> py_error + grid" where
  "do_action s a =
     (case getitem s (pos2 a) of
        Inl e \<Rightarrow> Inl e
      | Inr v2 \<Rightarrow>
          (case getitem s (pos1 a) of
             Inl e \<Rightarrow> Inl e
           | Inr v1 \<Rightarrow>
               (case setitem s (pos1 a) v2 of
                  Inl e \<Rightarrow> Inl e
                | Inr s1 \<Rightarrow> setitem s1 (pos2 a) v1)))"

subsection \<open>The same operation on a store of arrays\<close>

text \<open>
  Arrays are mutable objects. To speak about what \<open>do_action\<close> does to the array it is
  given, the store maps the address of every live array to its contents;
  \<open>state.copy()\<close> allocates a fresh address, and both item assignments go to the copy.
\<close>

type_synonym addr = nat

type_synonym store = "addr \<rightharpoonup> grid"

definition fresh_addr :: "store \<Rightarrow> addr \<Rightarrow> bool" where
  "fresh_addr st b = (st b = None)"

definition array_copy :: "store \<Rightarrow> addr \<Rightarrow> addr \<Rightarrow> store" where
  "array_copy st src dst = st(dst := st src)"

definition store_getitem :: "store \<Rightarrow> addr \<Rightarrow> pos \<Rightarrow> py_error + int" where
  "store_getitem st a p = (case st a of None \<Rightarrow> Inl IndexError | Some s \<Rightarrow> getitem s p)"

definition store_setitem :: "store \<Rightarrow> addr \<Rightarrow> pos \<Rightarrow> int \<Rightarrow> py_error + store" where
  "store_setitem st a p v =
     (case st a of
        None \<Rightarrow> Inl IndexError
      | Some s \<Rightarrow> (case setitem s p v of Inl e \<Rightarrow> Inl e | Inr s' \<Rightarrow> Inr (st(a \<mapsto> s'))))"

text \<open>
  \<open>do_action_store st state new_state act\<close>: the call \<open>do_action(state, act)\<close> in
  store \<open>st\<close>, where \<open>new_state\<close> is the address the copy is allocated at. The result
  is the store after the call and the address returned; when an exception is raised
  the store after the call is returned with it.
\<close>

definition do_action_store ::
  "store \<Rightarrow> addr \<Rightarrow> addr \<Rightarrow> action \<Rightarrow> (py_error \<times> store) + (store \<times> addr)" where
  "do_action_store st state new_state act =
     (let st0 = array_copy st state new_state in
      case store_getitem st0 new_state (pos2 act) of
        Inl e \<Rightarrow> Inl (e, st0)
      | Inr v2 \<Rightarrow>
          (case store_getitem st0 new_state (pos1 act) of
             Inl e \<Rightarrow> Inl (e, st0)
           | Inr v1 \<Rightarrow>
               (case store_setitem st0 new_state (pos1 act) v2 of
                  Inl e \<Rightarrow> Inl (e, st0)
                | Inr st1 \<Rightarrow>
                    (case store_setitem st1 new_state (pos2 act) v1 of
                       Inl e \<Rightarrow> Inl (e, st1)
                     | Inr st2 \<Rightarrow> Inr (st2, new_state)))))"

subsection \<open>Legal moves and distance\<close>

text \<open>
  The states one move away from \<open>s\<close>: the results of \<open>do_action\<close> on the actions that
  \<open>available_actions\<close> lists for \<open>s\<close>. \<open>reach_in k s t\<close>: some sequence of exactly
  \<open>k\<close> such moves leads from \<open>s\<close> to \<open>t\<close>. \<open>run_actions\<close> replays a given list of
  actions, each of which has to be listed for the state it is applied to.
\<close>

definition successors :: "grid \<Rightarrow> grid list" where
  "successors s =
     (case available_actions s of
        Inl e \<Rightarrow> []
      | Inr acts \<Rightarrow>
          List.map_filter (\<lambda>a. case do_action s a of Inl e \<Rightarrow> None | Inr t \<Rightarrow> Some t) acts)"

fun reach_in :: "nat \<Rightarrow> grid \<Rightarrow> grid \<Rightarrow> bool" where
  "reach_in 0 s t = (s = t)"
| "reach_in (Suc k) s t = (\<exists>u \<in> set (successors s). reach_in k u t)"

fun run_actions :: "grid \<Rightarrow> action list \<Rightarrow> grid option" where
  "run_actions s [] = Some s"
| "run_actions s (a # as) =
     (case available_actions s of
        Inl e \<Rightarrow> None
      | Inr acts \<Rightarrow>
          if a \<in> set acts
          then (case do_action s a of Inl e \<Rightarrow> None | Inr t \<Rightarrow> run_actions t as)
          else None)"

definition optimal_distance :: "grid \<Rightarrow> grid \<Rightarrow> nat \<Rightarrow> bool" where
  "optimal_distance s t d = (reach_in d s t \<and> (\<forall>k. reach_in k s t \<longrightarrow> d \<le> k))"

section \<open>Heuristic evaluators\<close>

type_synonym heuristic = "grid \<Rightarrow> grid \<Rightarrow> py_error + int"

text \<open>
  \<open>manhattan_distance\<close>: both loops run over \<open>range(state.shape[0])\<close>; the body reads
  \<open>state[i, j]\<close>, skips the blank, looks the tile up in the goal (IndexError when the
  goal does not hold it) and adds the two coordinate differences.
\<close>

fun manhattan_loop :: "grid \<Rightarrow> grid \<Rightarrow> (nat \<times> nat) list \<Rightarrow> int \<Rightarrow> py_error + int" where
  "manhattan_loop s goal [] total_distance = Inr total_distance"
| "manhattan_loop s goal ((i, j) # ps) total_distance =
     (case getitem s (int i, int j) of
        Inl e \<Rightarrow> Inl e
      | Inr v \<Rightarrow>
          if v \<noteq> 0 then
            (case where_first goal v of
               None \<Rightarrow> Inl IndexError
             | Some (goal_x, goal_y) \<Rightarrow>
                 manhattan_loop s goal ps
                   (total_distance + (\<bar>int i - int goal_x\<bar> + \<bar>int j - int goal_y\<bar>)))
          else manhattan_loop s goal ps total_distance)"

definition manhattan_distance :: heuristic where
  "manhattan_distance s goal =
     (let puzzle_dim = length s in
      manhattan_loop s goal (List.product [0..<puzzle_dim] [0..<puzzle_dim]) 0)"

text \<open>
  \<open>count_conflicts line1 line2\<close>: for every pair of positions \<open>i < j\<close> of \<open>line1\<close>
  holding non-blank tiles that both occur in \<open>line2\<close>, add 2 when the first occurrence
  of the tile at \<open>i\<close> in \<open>line2\<close> lies after that of the tile at \<open>j\<close>.
  \<open>conflicts_with x rest line2\<close> is the inner loop for the tile \<open>x\<close> at position \<open>i\<close>
  and the tiles \<open>rest\<close> after it.
\<close>

fun conflicts_with :: "int \<Rightarrow> int list \<Rightarrow> int list \<Rightarrow> int" where
  "conflicts_with x [] line2 = 0"
| "conflicts_with x (y # ys) line2 =
     (if y = 0 then conflicts_with x ys line2
      else if x \<in> set line2 \<and> y \<in> set line2 then
        (case (first_index line2 x, first_index line2 y) of
           (Some pos_i, Some pos_j) \<Rightarrow>
             (if pos_i > pos_j then 2 else 0) + conflicts_with x ys line2
         | _ \<Rightarrow> conflicts_with x ys line2)
      else conflicts_with x ys line2)"

fun count_conflicts :: "int list \<Rightarrow> int list \<Rightarrow> int" where
  "count_conflicts [] line2 = 0"
| "count_conflicts (x # xs) line2 =
     (if x = 0 then count_conflicts xs line2
      else conflicts_with x xs line2 + count_conflicts xs line2)"

definition column :: "grid \<Rightarrow> nat \<Rightarrow> int list" where
  "column s j = map (\<lambda>r. r ! j) s"

text \<open>
  The two loops of \<open>enhanced_manhattan\<close>: \<open>goal_state[i]\<close> raises IndexError when the
  goal has no row \<open>i\<close>, \<open>goal_state[:, j]\<close> when it has no column \<open>j\<close>.
\<close>

fun row_conflicts :: "grid \<Rightarrow> grid \<Rightarrow> nat list \<Rightarrow> int \<Rightarrow> py_error + int" where
  "row_conflicts s goal [] cost = Inr cost"
| "row_conflicts s goal (i # is) cost =
     (if i < nrows goal
      then row_conflicts s goal is (cost + count_conflicts (s ! i) (goal ! i))
      else Inl IndexError)"

fun column_conflicts :: "grid \<Rightarrow> grid \<Rightarrow> nat list \<Rightarrow> int \<Rightarrow> py_error + int" where
  "column_conflicts s goal [] cost = Inr cost"
| "column_conflicts s goal (j # js) cost =
     (if j < ncols goal
      then column_conflicts s goal js (cost + count_conflicts (column s j) (column goal j))
      else Inl IndexError)"

definition enhanced_manhattan :: heuristic where
  "enhanced_manhattan s goal =
     (case manhattan_distance s goal of
        Inl e \<Rightarrow> Inl e
      | Inr cost \<Rightarrow>
          (case row_conflicts s goal [0..<nrows s] cost of
             Inl e \<Rightarrow> Inl e
           | Inr cost1 \<Rightarrow> column_conflicts s goal [0..<ncols s] cost1))"

section \<open>Search nodes and the priority queue\<close>

datatype node =
  Node (state: grid) (parent: "node option") (action: "action option") (g_cost: int) (h_cost: int)

definition f_cost :: "node \<Rightarrow> int" where
  "f_cost n = g_cost n + h_cost n"

definition node_lt :: "node \<Rightarrow> node \<Rightarrow> bool" where
  "node_lt a b = (f_cost a < f_cost b)"

text \<open>
  The frontier is a Python list handled by \<open>heappush\<close> and \<open>heappop\<close> of the standard
  library module \<open>heapq\<close>, which compare entries with \<open>Node.__lt__\<close>. The module is
  not part of the repository; the functions below follow its reference
  implementation (\<open>_siftdown\<close>, \<open>_siftup\<close>, \<open>heappush\<close>, \<open>heappop\<close>) statement by
  statement, with the list passed in and returned.
\<close>

function siftdown_loop :: "node list \<Rightarrow> nat \<Rightarrow> nat \<Rightarrow> node \<Rightarrow> node list" where
  "siftdown_loop heap startpos pos newitem =
     (if pos > startpos then
        (let parentpos = (pos - 1) div 2; parent_item = heap ! parentpos in
         if node_lt newitem parent_item
         then siftdown_loop (heap[pos := parent_item]) startpos parentpos newitem
         else heap[pos := newitem])
      else heap[pos := newitem])"
  by pat_completeness auto

termination
  by (relation "measure (\<lambda>(heap, startpos, pos, newitem). pos)") auto

definition siftdown :: "node list \<Rightarrow> nat \<Rightarrow> nat \<Rightarrow> node list" where
  "siftdown heap startpos pos = siftdown_loop heap startpos pos (heap ! pos)"

function siftup_loop :: "node list \<Rightarrow> nat \<Rightarrow> node list \<times> nat" where
  "siftup_loop heap pos =
     (let endpos = length heap; childpos = 2 * pos + 1 in
      if childpos < endpos then
        (let rightpos = childpos + 1;
             childpos = (if rightpos < endpos \<and> \<not> node_lt (heap ! childpos) (heap ! rightpos)
                         then rightpos else childpos)
         in siftup_loop (heap[pos := heap ! childpos]) childpos)
      else (heap, pos))"
  by pat_completeness auto

termination
  by (relation "measure (\<lambda>(heap, pos). length heap - pos)") (auto simp: Let_def)

declare siftdown_loop.simps [simp del] siftup_loop.simps [simp del]

definition siftup :: "node list \<Rightarrow> nat \<Rightarrow> node list" where
  "siftup heap pos =
     (let startpos = pos; newitem = heap ! pos in
      case siftup_loop heap pos of
        (heap1, leafpos) \<Rightarrow> siftdown (heap1[leafpos := newitem]) startpos leafpos)"

definition heappush :: "node list \<Rightarrow> node \<Rightarrow> node list" where
  "heappush heap item = siftdown (heap @ [item]) 0 (length (heap @ [item]) - 1)"

text \<open>\<open>heappop\<close> of an empty list raises IndexError: \<open>None\<close> here.\<close>

definition heappop :: "node list \<Rightarrow> (node \<times> node list) option" where
  "heappop heap =
     (if heap = [] then None
      else
        (let lastelt = last heap; heap1 = butlast heap in
         if heap1 \<noteq> [] then
           (let returnitem = heap1 ! 0 in Some (returnitem, siftup (heap1[0 := lastelt]) 0))
         else Some (lastelt, [])))"

section \<open>The solver\<close>

type_synonym key = "int list"

definition state_to_tuple :: "grid \<Rightarrow> key" where
  "state_to_tuple s = concat s"

type_synonym path = "(grid \<times> action option) list"

text \<open>
  \<open>reconstruct_path\<close>: \<open>path_to_start\<close> is the list the loop builds by appending, from
  the given node back to the node without parent, whose action is replaced by
  \<open>None\<close>; the result is that list reversed.
\<close>

fun path_to_start :: "node \<Rightarrow> path" where
  "path_to_start (Node s None a g h) = [(s, None)]"
| "path_to_start (Node s (Some p) a g h) = (s, a) # path_to_start p"

definition reconstruct_path :: "node \<Rightarrow> path" where
  "reconstruct_path n = rev (path_to_start n)"

text \<open>
  The variables of one \<open>solve\<close> call: the frontier \<open>open_set\<close>, the table \<open>g_scores\<close>
  (a \<open>defaultdict\<close> whose default is infinity: a missing key is \<open>None\<close>), the set
  \<open>closed_set\<close> and the counter \<open>self.states_evaluated\<close>.
\<close>

record ctx =
  open_set :: "node list"
  g_scores :: "key \<rightharpoonup> int"
  closed_set :: "key set"
  states_evaluated :: int

type_synonym result = "path option \<times> int \<times> int"

text \<open>
  The \<open>for action in available_actions(current.state)\<close> loop, over the remaining
  actions, threading the frontier and the table.
\<close>

fun expand ::
  "heuristic \<Rightarrow> grid \<Rightarrow> node \<Rightarrow> key set \<Rightarrow> action list \<Rightarrow>
   node list \<times> (key \<rightharpoonup> int) \<Rightarrow> py_error + (node list \<times> (key \<rightharpoonup> int))" where
  "expand heuristic_func goal current closed [] (opn, gs) = Inr (opn, gs)"
| "expand heuristic_func goal current closed (a # as) (opn, gs) =
     (case do_action (state current) a of
        Inl e \<Rightarrow> Inl e
      | Inr new_state \<Rightarrow>
          (let new_state_tuple = state_to_tuple new_state in
           if new_state_tuple \<in> closed
           then expand heuristic_func goal current closed as (opn, gs)
           else
             (let new_g_cost = g_cost current + 1 in
              if (case gs new_state_tuple of None \<Rightarrow> False | Some g \<Rightarrow> new_g_cost \<ge> g)
              then expand heuristic_func goal current closed as (opn, gs)
              else
                (case heuristic_func new_state goal of
                   Inl e \<Rightarrow> Inl e
                 | Inr hv \<Rightarrow>
                     expand heuristic_func goal current closed as
                       (heappush opn (Node new_state (Some current) (Some a) new_g_cost hv),
                        gs(new_state_tuple \<mapsto> new_g_cost))))))"

text \<open>
  One pass through the body of \<open>while open_set\<close>. \<open>Inl c'\<close>: the loop goes on with the
  variables \<open>c'\<close>. \<open>Inr (r, c')\<close>: \<open>solve\<close> is left with the variables at \<open>c'\<close>, where
  \<open>r\<close> is the returned triple or the exception raised. The goal test
  \<open>(current.state == self.goal_state).all()\<close> is modelled for two arrays of one shape,
  where it is equality of the row lists. For arrays of different shapes the comparison
  broadcasts or raises ValueError: such runs are outside the model, and the properties
  of the loop are stated for an initial state and a goal of one shape.
\<close>

definition solve_step ::
  "heuristic \<Rightarrow> grid \<Rightarrow> ctx \<Rightarrow> ctx + ((py_error + result) \<times> ctx)" where
  "solve_step heuristic_func goal c =
     (case heappop (open_set c) of
        None \<Rightarrow> Inr (Inr (None, 0, states_evaluated c), c)
      | Some (current, rest) \<Rightarrow>
          (let current_tuple = state_to_tuple (state current) in
           if current_tuple \<in> closed_set c then Inl (c\<lparr>open_set := rest\<rparr>)
           else
             (let c1 = c\<lparr>open_set := rest, states_evaluated := states_evaluated c + 1\<rparr> in
              if state current = goal then
                (let path = reconstruct_path current in
                 Inr (Inr (Some path, int (length path) - 1, states_evaluated c1), c1))
              else
                (let c2 = c1\<lparr>closed_set := insert current_tuple (closed_set c1)\<rparr> in
                 case available_actions (state current) of
                   Inl e \<Rightarrow> Inr (Inl e, c2)
                 | Inr acts \<Rightarrow>
                     (case expand heuristic_func goal current (closed_set c2) acts
                             (open_set c2, g_scores c2) of
                        Inl e \<Rightarrow> Inr (Inl e, c2)
                      | Inr (opn, gs) \<Rightarrow> Inl (c2\<lparr>open_set := opn, g_scores := gs\<rparr>))))))"

partial_function (option) solve_loop ::
  "heuristic \<Rightarrow> grid \<Rightarrow> ctx \<Rightarrow> ((py_error + result) \<times> ctx) option" where
  "solve_loop heuristic_func goal c =
     (case solve_step heuristic_func goal c of
        Inl c' \<Rightarrow> solve_loop heuristic_func goal c'
      | Inr r \<Rightarrow> Some r)"

declare solve_loop.simps [code]

text \<open>The variables when the loop is entered, given the heuristic value of the start.\<close>

definition init_ctx :: "grid \<Rightarrow> int \<Rightarrow> ctx" where
  "init_ctx initial_state hv =
     \<lparr>open_set = [Node initial_state None None 0 hv],
      g_scores = [state_to_tuple initial_state \<mapsto> 0],
      closed_set = {},
      states_evaluated = 0\<rparr>"

text \<open>
  \<open>solve_run\<close> is the call \<open>GemPuzzleSolver(initial_state, goal_state,
  heuristic_func).solve()\<close> together with the variables at the moment it is left;
  \<open>solve\<close> is what the caller receives. \<open>None\<close>: the call does not return.
\<close>

definition solve_run ::
  "grid \<Rightarrow> grid \<Rightarrow> heuristic \<Rightarrow> ((py_error + result) \<times> ctx) option" where
  "solve_run initial_state goal_state heuristic_func =
     (case heuristic_func initial_state goal_state of
        Inl e \<Rightarrow> Some (Inl e, \<lparr>open_set = [], g_scores = Map.empty, closed_set = {},
                                states_evaluated = 0\<rparr>)
      | Inr hv \<Rightarrow> solve_loop heuristic_func goal_state (init_ctx initial_state hv))"

definition solve :: "grid \<Rightarrow> grid \<Rightarrow> heuristic \<Rightarrow> (py_error + result) option" where
  "solve initial_state goal_state heuristic_func =
     map_option fst (solve_run initial_state goal_state heuristic_func)"

text \<open>
  \<open>loop_reaches h goal c c'\<close>: starting the loop with the variables \<open>c\<close>, the loop head
  is reached again, after some number of passes, with the variables \<open>c'\<close>.
\<close>

inductive loop_reaches :: "heuristic \<Rightarrow> grid \<Rightarrow> ctx \<Rightarrow> ctx \<Rightarrow> bool"
  for heuristic_func goal where
  loop_refl: "loop_reaches heuristic_func goal c c"
| loop_step: "loop_reaches heuristic_func goal c c1 \<Longrightarrow>
     solve_step heuristic_func goal c1 = Inl c2 \<Longrightarrow> loop_reaches heuristic_func goal c c2"

code_pred loop_reaches .

section \<open>Notions the properties are stated with\<close>

text \<open>
  A cell index inside an array of shape \<open>(m, n)\<close>; two cells next to each other in a
  row or a column; a puzzle state of dimension \<open>n\<close> (shape \<open>(n, n)\<close>, holding every
  label \<open>0 .. n * n - 1\<close> once); a legal action (the blank is at \<open>pos1\<close>, and \<open>pos2\<close>
  is a cell of the grid next to it); corner and border cells.
\<close>

definition in_grid :: "nat \<Rightarrow> nat \<Rightarrow> pos \<Rightarrow> bool" where
  "in_grid m n p = (0 \<le> fst p \<and> fst p < int m \<and> 0 \<le> snd p \<and> snd p < int n)"

definition adjacent :: "pos \<Rightarrow> pos \<Rightarrow> bool" where
  "adjacent p q = (\<bar>fst p - fst q\<bar> + \<bar>snd p - snd q\<bar> = 1)"

definition valid_state :: "nat \<Rightarrow> grid \<Rightarrow> bool" where
  "valid_state n s = (0 < n \<and> has_shape n n s \<and> mset (concat s) = mset (map int [0..<n * n]))"

definition legal_action :: "nat \<Rightarrow> grid \<Rightarrow> action \<Rightarrow> bool" where
  "legal_action n s a =
     (in_grid n n (pos1 a) \<and> in_grid n n (pos2 a) \<and> getitem s (pos1 a) = Inr 0 \<and>
      adjacent (pos1 a) (pos2 a))"

definition is_corner :: "nat \<Rightarrow> pos \<Rightarrow> bool" where
  "is_corner n p = ((fst p = 0 \<or> fst p = int n - 1) \<and> (snd p = 0 \<or> snd p = int n - 1))"

definition on_border :: "nat \<Rightarrow> pos \<Rightarrow> bool" where
  "on_border n p = (fst p = 0 \<or> fst p = int n - 1 \<or> snd p = 0 \<or> snd p = int n - 1)"

text \<open>
  The parent chain of a node: \<open>depth\<close> is the number of parent links from the node to
  the node without parent, \<open>ancestors\<close> lists the chain from that node to the given
  one.
\<close>

fun depth :: "node \<Rightarrow> nat" where
  "depth (Node s None a g h) = 0"
| "depth (Node s (Some p) a g h) = Suc (depth p)"

fun ancestors :: "node \<Rightarrow> node list" where
  "ancestors (Node s None a g h) = [Node s None a g h]"
| "ancestors (Node s (Some p) a g h) = ancestors p @ [Node s (Some p) a g h]"

text \<open>The relation between the counter and the closed set at the loop head.\<close>

definition counter_inv :: "ctx \<Rightarrow> bool" where
  "counter_inv c = (finite (closed_set c) \<and> states_evaluated c = int (card (closed_set c)))"

text \<open>
  A sequence of 26 moves from the state \<open>[[3, 8, 1], [6, 5, 4], [0, 2, 7]]\<close> to the goal
  of the 3 x 3 board, and the sequence that undoes it.
\<close>

definition far_path :: "action list" where
  "far_path =
     [
      Action (2, 0) (2, 1), Action (2, 1) (2, 2), Action (2, 2) (1, 2),
      Action (1, 2) (1, 1), Action (1, 1) (1, 0), Action (1, 0) (2, 0),
      Action (2, 0) (2, 1), Action (2, 1) (1, 1), Action (1, 1) (0, 1),
      Action (0, 1) (0, 2), Action (0, 2) (1, 2), Action (1, 2) (2, 2),
      Action (2, 2) (2, 1), Action (2, 1) (1, 1), Action (1, 1) (0, 1),
      Action (0, 1) (0, 0), Action (0, 0) (1, 0), Action (1, 0) (1, 1),
      Action (1, 1) (1, 2), Action (1, 2) (0, 2), Action (0, 2) (0, 1),
      Action (0, 1) (0, 0), Action (0, 0) (1, 0), Action (1, 0) (1, 1),
      Action (1, 1) (1, 2), Action (1, 2) (2, 2)]"

definition far_path_back :: "action list" where
  "far_path_back =
     [
      Action (2, 2) (1, 2), Action (1, 2) (1, 1), Action (1, 1) (1, 0),
      Action (1, 0) (0, 0), Action (0, 0) (0, 1), Action (0, 1) (0, 2),
      Action (0, 2) (1, 2), Action (1, 2) (1, 1), Action (1, 1) (1, 0),
      Action (1, 0) (0, 0), Action (0, 0) (0, 1), Action (0, 1) (1, 1),
      Action (1, 1) (2, 1), Action (2, 1) (2, 2), Action (2, 2) (1, 2),
      Action (1, 2) (0, 2), Action (0, 2) (0, 1), Action (0, 1) (1, 1),
      Action (1, 1) (2, 1), Action (2, 1) (2, 0), Action (2, 0) (1, 0),
      Action (1, 0) (1, 1), Action (1, 1) (1, 2), Action (1, 2) (2, 2),
      Action (2, 2) (2, 1), Action (2, 1) (2, 0)]"

text \<open>
  The heap order of a frontier: no entry has a smaller \<open>f_cost\<close> than the entry at its
  parent index. \<open>heap_except heap pos\<close> is the state during \<open>_siftdown\<close>: the order
  holds for every entry but the one at \<open>pos\<close>, and the entries below \<open>pos\<close> are not
  smaller than the entry above \<open>pos\<close>. \<open>heap_hole heap pos\<close> is the state during the
  loop of \<open>_siftup\<close>: the order holds between all entries away from \<open>pos\<close>.
  \<open>smaller_child\<close> is the child index that loop moves to.
\<close>

definition heap_inv :: "node list \<Rightarrow> bool" where
  "heap_inv heap =
     (\<forall>i. 0 < i \<and> i < length heap \<longrightarrow> f_cost (heap ! ((i - 1) div 2)) \<le> f_cost (heap ! i))"

definition heap_except :: "node list \<Rightarrow> nat \<Rightarrow> bool" where
  "heap_except heap pos =
     ((\<forall>i. 0 < i \<and> i < length heap \<and> i \<noteq> pos \<longrightarrow>
          f_cost (heap ! ((i - 1) div 2)) \<le> f_cost (heap ! i)) \<and>
      (\<forall>i. 0 < i \<and> i < length heap \<and> (i - 1) div 2 = pos \<and> 0 < pos \<longrightarrow>
          f_cost (heap ! ((pos - 1) div 2)) \<le> f_cost (heap ! i)))"

definition heap_hole :: "node list \<Rightarrow> nat \<Rightarrow> bool" where
  "heap_hole heap pos =
     ((\<forall>i. 0 < i \<and> i < length heap \<and> i \<noteq> pos \<and> (i - 1) div 2 \<noteq> pos \<longrightarrow>
          f_cost (heap ! ((i - 1) div 2)) \<le> f_cost (heap ! i)) \<and>
      (\<forall>i. 0 < i \<and> i < length heap \<and> (i - 1) div 2 = pos \<and> 0 < pos \<longrightarrow>
          f_cost (heap ! ((pos - 1) div 2)) \<le> f_cost (heap ! i)))"

definition smaller_child :: "node list \<Rightarrow> nat \<Rightarrow> nat" where
  "smaller_child heap pos =
     (if 2 * pos + 2 < length heap \<and> \<not> node_lt (heap ! (2 * pos + 1)) (heap ! (2 * pos + 2))
      then 2 * pos + 2 else 2 * pos + 1)"

text \<open>
  The frontier at a loop head of a run that started from an array of shape \<open>(m, n)\<close>:
  a heap of nodes whose states have that shape.
\<close>

definition shapes_ok :: "nat \<Rightarrow> nat \<Rightarrow> ctx \<Rightarrow> bool" where
  "shapes_ok m n c =
     (heap_inv (open_set c) \<and> (\<forall>nd \<in> set (open_set c). has_shape m n (state nd)))"

text \<open>
  The states reachable from the initial state by legal moves, and the two conditions on
  a heuristic, both over the reachable states: it returns a value, and it is consistent
  (its value drops by at most one across a move).
\<close>

definition reachable :: "grid \<Rightarrow> grid \<Rightarrow> bool" where
  "reachable init s = (\<exists>k. reach_in k init s)"

definition heuristic_returns :: "grid \<Rightarrow> grid \<Rightarrow> heuristic \<Rightarrow> bool" where
  "heuristic_returns init goal h = (\<forall>s. reachable init s \<longrightarrow> (\<exists>v. h s goal = Inr v))"

definition consistent :: "grid \<Rightarrow> grid \<Rightarrow> heuristic \<Rightarrow> bool" where
  "consistent init goal h =
     (\<forall>s t v w. reachable init s \<and> t \<in> set (successors s) \<and> h s goal = Inr v \<and> h t goal = Inr w
        \<longrightarrow> v \<le> w + 1)"

text \<open>
  The invariant of the search loop. A node is sound when its \<open>g_cost\<close> is the length
  of its parent chain and of a sequence of moves from the initial state to its state,
  and its \<open>h_cost\<close> is the heuristic value of its state. The frontier is a heap of
  sound nodes, none cheaper than the table entry of its state; every table entry of a
  state that is not closed is the \<open>g_cost\<close> of a frontier node of that state; every
  closed state is not the goal, its table entry is its distance from the initial state,
  and each of its successors is closed or has a table entry at most one larger.
\<close>

definition node_ok :: "grid \<Rightarrow> grid \<Rightarrow> heuristic \<Rightarrow> node \<Rightarrow> bool" where
  "node_ok init goal h nd =
     (\<exists>k. g_cost nd = int k \<and> depth nd = k \<and> reach_in k init (state nd) \<and>
          h (state nd) goal = Inr (h_cost nd))"

definition open_ok :: "grid \<Rightarrow> grid \<Rightarrow> heuristic \<Rightarrow> node list \<Rightarrow> (key \<rightharpoonup> int) \<Rightarrow> bool" where
  "open_ok init goal h opn gs =
     (heap_inv opn \<and>
      (\<forall>nd \<in> set opn. node_ok init goal h nd \<and>
         (\<exists>g. gs (state_to_tuple (state nd)) = Some g \<and> g \<le> g_cost nd)))"

definition scores_ok :: "grid \<Rightarrow> node list \<Rightarrow> (key \<rightharpoonup> int) \<Rightarrow> key set \<Rightarrow> bool" where
  "scores_ok init opn gs closed =
     (\<forall>s g. reachable init s \<and> gs (state_to_tuple s) = Some g \<and> state_to_tuple s \<notin> closed
        \<longrightarrow> (\<exists>nd \<in> set opn. state nd = s \<and> g_cost nd = g))"

definition closed_ok :: "grid \<Rightarrow> grid \<Rightarrow> (key \<rightharpoonup> int) \<Rightarrow> key set \<Rightarrow> bool" where
  "closed_ok init goal gs closed =
     ((\<forall>k \<in> closed. \<exists>s. reachable init s \<and> state_to_tuple s = k) \<and>
      (\<forall>s. reachable init s \<and> state_to_tuple s \<in> closed \<longrightarrow>
         s \<noteq> goal \<and>
         (\<exists>d. gs (state_to_tuple s) = Some (int d) \<and> reach_in d init s \<and>
              (\<forall>j. reach_in j init s \<longrightarrow> d \<le> j) \<and>
              (\<forall>t \<in> set (successors s).
                 state_to_tuple t \<in> closed \<or>
                 (\<exists>g'. gs (state_to_tuple t) = Some g' \<and> g' \<le> int d + 1)))))"

definition astar_inv :: "grid \<Rightarrow> grid \<Rightarrow> heuristic \<Rightarrow> ctx \<Rightarrow> bool" where
  "astar_inv init goal h c =
     (open_ok init goal h (open_set c) (g_scores c) \<and>
      scores_ok init (open_set c) (g_scores c) (closed_set c) \<and>
      closed_ok init goal (g_scores c) (closed_set c) \<and>
      (\<exists>g. g_scores c (state_to_tuple init) = Some g \<and> g \<le> 0))"

text \<open>The keys that states of the run can have: a finite set.\<close>

definition key_universe :: "nat \<Rightarrow> grid \<Rightarrow> key set" where
  "key_universe n init = {k. set k \<subseteq> set (concat init) \<and> length k = n * n}"

text \<open>The twelve states of the 2 x 2 board that can be reached from \<open>[[0, 2], [1, 3]]\<close>.\<close>

definition small_states :: "grid list" where
  "small_states =
     [[[0, 2], [1, 3]], [[1, 2], [0, 3]], [[2, 0], [1, 3]], [[1, 2], [3, 0]],
      [[2, 3], [1, 0]], [[1, 0], [3, 2]], [[2, 3], [0, 1]], [[0, 1], [3, 2]],
      [[0, 3], [2, 1]], [[3, 1], [0, 2]], [[3, 0], [2, 1]], [[3, 1], [2, 0]]]"

section \<open>Properties of the state and action model\<close>

subsection \<open>Indexing and exchanging cells\<close>

lemma norm_index_in: "0 \<le> i \<Longrightarrow> i < int n \<Longrightarrow> norm_index n i = Some (nat i)"
  by (simp add: norm_index_def)

lemma has_shape_row: "has_shape m n s \<Longrightarrow> r < m \<Longrightarrow> length (s ! r) = n"
  by (auto simp: has_shape_def list_all_length)

lemma getitem_in:
  assumes "has_shape m n s" "in_grid m n p"
  shows "getitem s p = Inr (s ! nat (fst p) ! nat (snd p))"
proof -
  have r: "norm_index (length s) (fst p) = Some (nat (fst p))"
    using assms by (simp add: norm_index_in in_grid_def has_shape_def)
  have "nat (fst p) < m" using assms by (auto simp: in_grid_def)
  then have "length (s ! nat (fst p)) = n" using assms has_shape_row by blast
  then have c: "norm_index (length (s ! nat (fst p))) (snd p) = Some (nat (snd p))"
    using assms by (simp add: norm_index_in in_grid_def)
  show ?thesis by (simp add: getitem_def r c)
qed

lemma setitem_in:
  assumes "has_shape m n s" "in_grid m n p"
  shows "setitem s p v = Inr (s[nat (fst p) := (s ! nat (fst p))[nat (snd p) := v]])"
proof -
  have r: "norm_index (length s) (fst p) = Some (nat (fst p))"
    using assms by (simp add: norm_index_in in_grid_def has_shape_def)
  have "nat (fst p) < m" using assms by (auto simp: in_grid_def)
  then have "length (s ! nat (fst p)) = n" using assms has_shape_row by blast
  then have c: "norm_index (length (s ! nat (fst p))) (snd p) = Some (nat (snd p))"
    using assms by (simp add: norm_index_in in_grid_def)
  show ?thesis by (simp add: setitem_def r c)
qed

lemma has_shape_update:
  assumes "has_shape m n s"
  shows "has_shape m n (s[r := (s ! r)[c := v]])"
proof (cases "r < length s")
  case True
  then show ?thesis using assms
    by (auto simp: has_shape_def list_all_length nth_list_update)
next
  case False
  then have "s[r := (s ! r)[c := v]] = s" by (simp add: list_update_beyond not_less)
  then show ?thesis using assms by simp
qed

lemma nat_eq_pos: "in_grid m n p \<Longrightarrow> in_grid m n q \<Longrightarrow>
   (nat (fst p) = nat (fst q) \<and> nat (snd p) = nat (snd q)) = (p = q)"
  by (auto simp: in_grid_def prod_eq_iff)

lemma cell_update:
  assumes "has_shape m n s" "in_grid m n p" "in_grid m n c"
  shows "s[nat (fst p) := (s ! nat (fst p))[nat (snd p) := v]] ! nat (fst c) ! nat (snd c)
       = (if c = p then v else s ! nat (fst c) ! nat (snd c))"
proof -
  have lp: "nat (fst p) < length s" "nat (fst c) < length s"
    using assms by (auto simp: in_grid_def has_shape_def)
  have lr: "nat (snd p) < length (s ! nat (fst p))" "nat (snd c) < length (s ! nat (fst c))"
    using assms has_shape_row[OF assms(1)] by (auto simp: in_grid_def)
  show ?thesis
  proof (cases "nat (fst c) = nat (fst p)")
    case True
    then show ?thesis using lp lr nat_eq_pos[OF assms(3) assms(2)]
      by (simp add: nth_list_update) metis
  next
    case False
    then show ?thesis using lp by (auto simp: nth_list_update)
  qed
qed

lemma do_action_in:
  assumes sh: "has_shape m n s" and p: "in_grid m n p" and q: "in_grid m n q"
  shows "\<exists>t. do_action s (Action p q) = Inr t \<and> has_shape m n t \<and>
           (\<forall>c. in_grid m n c \<longrightarrow>
              getitem t c = (if c = q then getitem s p else if c = p then getitem s q
                             else getitem s c))"
proof -
  let ?s1 = "s[nat (fst p) := (s ! nat (fst p))[nat (snd p) := s ! nat (fst q) ! nat (snd q)]]"
  let ?t = "?s1[nat (fst q) := (?s1 ! nat (fst q))[nat (snd q) := s ! nat (fst p) ! nat (snd p)]]"
  have sh1: "has_shape m n ?s1" using sh by (rule has_shape_update)
  have sht: "has_shape m n ?t" using sh1 by (rule has_shape_update)
  have run: "do_action s (Action p q) = Inr ?t"
    by (simp add: do_action_def getitem_in[OF sh q] getitem_in[OF sh p]
        setitem_in[OF sh p] setitem_in[OF sh1 q])
  have cells: "getitem ?t c = (if c = q then getitem s p else if c = p then getitem s q
                             else getitem s c)" if c: "in_grid m n c" for c
    by (simp add: getitem_in[OF sht c] getitem_in[OF sh c] getitem_in[OF sh p] getitem_in[OF sh q]
        cell_update[OF sh1 q c] cell_update[OF sh p c])
  show ?thesis using run sht cells by blast
qed

lemma grid_eqI:
  assumes "has_shape m n s" "has_shape m n t"
    and "\<And>c. in_grid m n c \<Longrightarrow> getitem s c = getitem t c"
  shows "s = t"
proof (rule nth_equalityI)
  show "length s = length t" using assms by (simp add: has_shape_def)
next
  fix i assume i: "i < length s"
  then have im: "i < m" using assms by (simp add: has_shape_def)
  show "s ! i = t ! i"
  proof (rule nth_equalityI)
    show "length (s ! i) = length (t ! i)" using assms has_shape_row im by metis
  next
    fix j assume "j < length (s ! i)"
    then have jn: "j < n" using assms(1) has_shape_row im by metis
    have g: "in_grid m n (int i, int j)" using im jn by (simp add: in_grid_def)
    from assms(3)[OF g] show "s ! i ! j = t ! i ! j"
      by (simp add: getitem_in[OF assms(1) g] getitem_in[OF assms(2) g])
  qed
qed

lemma do_action_twice:
  assumes sh: "has_shape m n s" and p: "in_grid m n p" and q: "in_grid m n q"
    and t: "do_action s (Action p q) = Inr t"
  shows "do_action t (Action p q) = Inr s"
proof -
  from do_action_in[OF sh p q] t have sht: "has_shape m n t"
    and ct: "\<And>c. in_grid m n c \<Longrightarrow> getitem t c = (if c = q then getitem s p else if c = p then getitem s q else getitem s c)"
    by auto
  from do_action_in[OF sht p q] obtain u where u: "do_action t (Action p q) = Inr u"
    and shu: "has_shape m n u"
    and cu: "\<And>c. in_grid m n c \<Longrightarrow> getitem u c = (if c = q then getitem t p else if c = p then getitem t q else getitem t c)"
    by auto
  have "u = s"
  proof (rule grid_eqI[OF shu sh])
    fix c assume c: "in_grid m n c"
    show "getitem u c = getitem s c"
      using cu[OF c] ct[OF c] ct[OF p] ct[OF q] by (auto split: if_splits)
  qed
  with u show ?thesis by simp
qed

subsection \<open>Locating the blank and listing the moves\<close>

lemma first_index_Some:
  "first_index xs v = Some j \<Longrightarrow> j < length xs \<and> xs ! j = v"
proof (induction xs arbitrary: j)
  case Nil
  then show ?case by simp
next
  case (Cons x xs)
  then show ?case by (cases "x = v") auto
qed

lemma first_index_None: "(first_index xs v = None) = (v \<notin> set xs)"
  by (induction xs) auto

lemma where_first_Some:
  "where_first s v = Some (i, j) \<Longrightarrow> i < length s \<and> j < length (s ! i) \<and> s ! i ! j = v"
proof (induction s arbitrary: i)
  case Nil
  then show ?case by simp
next
  case (Cons r rs)
  show ?case
  proof (cases "first_index r v")
    case None
    with Cons.prems obtain i' where i': "where_first rs v = Some (i', j)" "i = Suc i'"
      by auto
    from Cons.IH[OF i'(1)] i'(2) show ?thesis by simp
  next
    case (Some c)
    with Cons.prems have "i = 0" "j = c" by auto
    with first_index_Some[OF Some] show ?thesis by simp
  qed
qed

lemma where_first_None: "(where_first s v = None) = (v \<notin> set (concat s))"
proof (induction s)
  case Nil
  then show ?case by simp
next
  case (Cons r rs)
  show ?case
  proof (cases "first_index r v")
    case None
    then have "v \<notin> set r" by (simp add: first_index_None)
    with None Cons show ?thesis by simp
  next
    case (Some c)
    from first_index_Some[OF Some] have "v \<in> set r" by (metis nth_mem)
    with Some show ?thesis by simp
  qed
qed

lemma available_actions_blank:
  assumes "has_shape m n s" "0 \<in> set (concat s)"
  shows "\<exists>x y. where_first s 0 = Some (x, y) \<and> in_grid m n (int x, int y) \<and>
           getitem s (int x, int y) = Inr 0"
proof -
  from assms(2) obtain x y where w: "where_first s 0 = Some (x, y)"
    using where_first_None[of s 0] by (cases "where_first s 0") auto
  from where_first_Some[OF w] have b: "x < length s" "y < length (s ! x)" "s ! x ! y = 0"
    by auto
  then have g: "in_grid m n (int x, int y)"
    using assms(1) has_shape_row[OF assms(1), of x] by (auto simp: in_grid_def has_shape_def)
  from getitem_in[OF assms(1) g] b have "getitem s (int x, int y) = Inr 0" by simp
  with w g show ?thesis by blast
qed

lemma available_actions_eq:
  assumes "where_first s 0 = Some (x, y)"
  shows "available_actions s =
     Inr ((if int x > 0 then [Action (int x, int y) (int x - 1, int y)] else []) @
          (if int x < int (length s) - 1 then [Action (int x, int y) (int x + 1, int y)] else []) @
          (if int y > 0 then [Action (int x, int y) (int x, int y - 1)] else []) @
          (if int y < int (length s) - 1 then [Action (int x, int y) (int x, int y + 1)] else []))"
  using assms by (simp add: available_actions_def Let_def)

lemma adjacent_cases:
  "adjacent (x, y) q = (q = (x - 1, y) \<or> q = (x + 1, y) \<or> q = (x, y - 1) \<or> q = (x, y + 1))"
  by (cases q) (auto simp: adjacent_def)

lemma available_actions_set:
  assumes sh: "has_shape n n s" and w: "where_first s 0 = Some (x, y)"
    and acts: "available_actions s = Inr acts"
  shows "set acts = {Action (int x, int y) q |q. in_grid n n q \<and> adjacent (int x, int y) q}"
    and "distinct acts"
proof -
  from where_first_Some[OF w] have b: "x < length s" "y < length (s ! x)" by auto
  have len: "length s = n" using sh by (simp add: has_shape_def)
  have xy: "x < n" "y < n" using b has_shape_row[OF sh, of x] len by auto
  have eq: "acts = (if int x > 0 then [Action (int x, int y) (int x - 1, int y)] else []) @
          (if int x < int n - 1 then [Action (int x, int y) (int x + 1, int y)] else []) @
          (if int y > 0 then [Action (int x, int y) (int x, int y - 1)] else []) @
          (if int y < int n - 1 then [Action (int x, int y) (int x, int y + 1)] else [])"
    using available_actions_eq[OF w] acts len by simp
  show "distinct acts" unfolding eq by auto
  show "set acts = {Action (int x, int y) q |q. in_grid n n q \<and> adjacent (int x, int y) q}"
    unfolding eq adjacent_cases using xy
    by (auto simp: in_grid_def)
qed

lemma available_actions_length:
  assumes sh: "has_shape n n s" and w: "where_first s 0 = Some (x, y)"
    and acts: "available_actions s = Inr acts" and n2: "2 \<le> n"
  shows "is_corner n (int x, int y) \<Longrightarrow> length acts = 2"
    and "on_border n (int x, int y) \<Longrightarrow> \<not> is_corner n (int x, int y) \<Longrightarrow> length acts = 3"
    and "\<not> on_border n (int x, int y) \<Longrightarrow> length acts = 4"
proof -
  from where_first_Some[OF w] have b: "x < length s" "y < length (s ! x)" by auto
  have len: "length s = n" using sh by (simp add: has_shape_def)
  have xy: "x < n" "y < n" using b has_shape_row[OF sh, of x] len by auto
  have eq: "acts = (if int x > 0 then [Action (int x, int y) (int x - 1, int y)] else []) @
          (if int x < int n - 1 then [Action (int x, int y) (int x + 1, int y)] else []) @
          (if int y > 0 then [Action (int x, int y) (int x, int y - 1)] else []) @
          (if int y < int n - 1 then [Action (int x, int y) (int x, int y + 1)] else [])"
    using available_actions_eq[OF w] acts len by simp
  show "is_corner n (int x, int y) \<Longrightarrow> length acts = 2"
    unfolding eq using xy n2 by (auto simp: is_corner_def)
  show "on_border n (int x, int y) \<Longrightarrow> \<not> is_corner n (int x, int y) \<Longrightarrow> length acts = 3"
    unfolding eq using xy n2 by (auto simp: is_corner_def on_border_def)
  show "\<not> on_border n (int x, int y) \<Longrightarrow> length acts = 4"
    unfolding eq using xy n2 by (auto simp: on_border_def)
qed

lemma concat_nth_shape:
  "has_shape m n s \<Longrightarrow> i < m \<Longrightarrow> j < n \<Longrightarrow>
     i * n + j < length (concat s) \<and> concat s ! (i * n + j) = s ! i ! j"
proof (induction s arbitrary: i m)
  case Nil
  then show ?case by (simp add: has_shape_def)
next
  case (Cons r rs)
  from Cons.prems(1) have lr: "length r = n" and sh: "has_shape (m - 1) n rs"
    by (auto simp: has_shape_def)
  show ?case
  proof (cases i)
    case 0
    then show ?thesis using lr Cons.prems(3) by (simp add: nth_append)
  next
    case (Suc i')
    then have "i' < m - 1" using Cons.prems(2) by simp
    from Cons.IH[OF sh this Cons.prems(3)] Suc lr show ?thesis
      by (simp add: nth_append)
  qed
qed

lemma cell_index_inj:
  fixes n :: nat
  assumes "j < n" "j' < n" "i * n + j = i' * n + j'"
  shows "i = i' \<and> j = j'"
proof -
  have "(i * n + j) div n = i" using assms(1) by simp
  moreover have "(i' * n + j') div n = i'" using assms(2) by simp
  ultimately have "i = i'" using assms(3) by simp
  then show ?thesis using assms(3) by simp
qed

lemma distinct_cells:
  assumes sh: "has_shape m n s" and d: "distinct (concat s)"
    and c: "in_grid m n c" and c': "in_grid m n c'"
    and eq: "getitem s c = getitem s c'"
  shows "c = c'"
proof -
  let ?i = "nat (fst c)" and ?j = "nat (snd c)" and ?i' = "nat (fst c')" and ?j' = "nat (snd c')"
  have b: "?i < m" "?j < n" "?i' < m" "?j' < n" using c c' by (auto simp: in_grid_def)
  from concat_nth_shape[OF sh b(1) b(2)] concat_nth_shape[OF sh b(3) b(4)] eq
  have "concat s ! (?i * n + ?j) = concat s ! (?i' * n + ?j')"
    and "?i * n + ?j < length (concat s)" "?i' * n + ?j' < length (concat s)"
    by (simp_all add: getitem_in[OF sh c] getitem_in[OF sh c'])
  with d have "?i * n + ?j = ?i' * n + ?j'" by (simp add: nth_eq_iff_index_eq)
  from cell_index_inj[OF b(2) b(4) this] have "?i = ?i'" "?j = ?j'" by auto
  then show ?thesis using nat_eq_pos[OF c c'] by simp
qed

lemma valid_state_distinct: "valid_state n s \<Longrightarrow> distinct (concat s)"
proof -
  assume "valid_state n s"
  then have "mset (concat s) = mset (map int [0..<n * n])" by (simp add: valid_state_def)
  moreover have "distinct (map int [0..<n * n])" by (simp add: distinct_map)
  ultimately show ?thesis by (metis mset_eq_imp_distinct_iff)
qed

lemma valid_state_blank: "valid_state n s \<Longrightarrow> 0 \<in> set (concat s)"
proof -
  assume v: "valid_state n s"
  then have "set (concat s) = set (map int [0..<n * n])"
    by (metis valid_state_def mset_eq_setD)
  moreover have "0 < n * n" using v by (simp add: valid_state_def)
  ultimately show ?thesis by force
qed

text \<open>
  Claim C9, as the code has it. For every valid state of dimension \<open>n\<close>,
  \<open>available_actions\<close> returns without error; the blank is the one cell \<open>b\<close>
  holding 0; the returned list has no repetition and consists of exactly the actions
  from \<open>b\<close> to a cell of the grid next to \<open>b\<close>; every returned action is legal; and
  for \<open>n \<ge> 2\<close> the list has 2 entries when the blank is in a corner, 3 when it is on
  the border outside the corners, 4 when it is inside.
\<close>

theorem available_actions_neighbours:
  assumes "valid_state n s"
  shows "\<exists>b acts. available_actions s = Inr acts \<and> in_grid n n b \<and> getitem s b = Inr 0 \<and>
           (\<forall>c. in_grid n n c \<and> getitem s c = Inr 0 \<longrightarrow> c = b) \<and>
           distinct acts \<and>
           set acts = {Action b q |q. in_grid n n q \<and> adjacent b q} \<and>
           (\<forall>a \<in> set acts. legal_action n s a) \<and>
           (2 \<le> n \<longrightarrow>
              (is_corner n b \<longrightarrow> length acts = 2) \<and>
              (on_border n b \<and> \<not> is_corner n b \<longrightarrow> length acts = 3) \<and>
              (\<not> on_border n b \<longrightarrow> length acts = 4))"
proof -
  from assms have sh: "has_shape n n s" by (simp add: valid_state_def)
  from available_actions_blank[OF sh valid_state_blank[OF assms]]
  obtain x y where w: "where_first s 0 = Some (x, y)"
    and g: "in_grid n n (int x, int y)" and z: "getitem s (int x, int y) = Inr 0"
    by blast
  let ?b = "(int x, int y)"
  obtain acts where acts: "available_actions s = Inr acts"
    using available_actions_eq[OF w] by blast
  have uniq: "\<forall>c. in_grid n n c \<and> getitem s c = Inr 0 \<longrightarrow> c = ?b"
    using distinct_cells[OF sh valid_state_distinct[OF assms] _ g] z by simp
  note st = available_actions_set[OF sh w acts]
  have legal: "\<forall>a \<in> set acts. legal_action n s a"
    unfolding st(1) using g z by (auto simp: legal_action_def)
  have counts: "2 \<le> n \<longrightarrow>
              (is_corner n ?b \<longrightarrow> length acts = 2) \<and>
              (on_border n ?b \<and> \<not> is_corner n ?b \<longrightarrow> length acts = 3) \<and>
              (\<not> on_border n ?b \<longrightarrow> length acts = 4)"
    using available_actions_length[OF sh w acts] by blast
  show ?thesis
    using acts g z uniq st legal counts by blast
qed

text \<open>The state the notebook starts from.\<close>

lemma valid_ex3: "valid_state 3 [[3, 7, 4], [5, 0, 6], [8, 2, 1]]"
  by (simp add: valid_state_def has_shape_def upt_conv_Cons)

theorem available_actions_neighbours_witness:
  "valid_state 3 [[3, 7, 4], [5, 0, 6], [8, 2, 1]] \<and>
   available_actions [[3, 7, 4], [5, 0, 6], [8, 2, 1]] =
     Inr [Action (1, 1) (0, 1), Action (1, 1) (2, 1), Action (1, 1) (1, 0), Action (1, 1) (1, 2)] \<and>
   (\<exists>b acts. available_actions [[3, 7, 4], [5, 0, 6], [8, 2, 1]] = Inr acts \<and>
      set acts = {Action b q |q. in_grid 3 3 q \<and> adjacent b q} \<and> distinct acts)"
proof -
  have v: "valid_state 3 [[3, 7, 4], [5, 0, 6], [8, 2, 1]]" by (rule valid_ex3)
  have a: "available_actions [[3, 7, 4], [5, 0, 6], [8, 2, 1]] =
     Inr [Action (1, 1) (0, 1), Action (1, 1) (2, 1), Action (1, 1) (1, 0), Action (1, 1) (1, 2)]"
    by (simp add: available_actions_def)
  from available_actions_neighbours[OF v] have
    "\<exists>b acts. available_actions [[3, 7, 4], [5, 0, 6], [8, 2, 1]] = Inr acts \<and>
      set acts = {Action b q |q. in_grid 3 3 q \<and> adjacent b q} \<and> distinct acts"
    by blast
  with v a show ?thesis by blast
qed

text \<open>
  Claim C9 as stated fails for dimension 1: the only cell of the valid state \<open>[[0]]\<close>
  is a corner holding the blank, and \<open>available_actions\<close> returns no action, not 2.
\<close>

theorem available_actions_corner_counterexample:
  "valid_state 1 [[0]] \<and> in_grid 1 1 (0, 0) \<and> getitem [[0]] (0, 0) = Inr 0 \<and>
   is_corner 1 (0, 0) \<and> available_actions [[0]] = Inr [] \<and> length ([] :: action list) \<noteq> 2"
  by (simp add: valid_state_def has_shape_def in_grid_def getitem_def norm_index_def
      is_corner_def available_actions_def)

lemma do_action_store_eq:
  assumes "st a = Some s" "b \<noteq> a" "do_action s act = Inr t"
  shows "do_action_store st a b act = Inr (st(b \<mapsto> t), b)"
proof -
  have c: "array_copy st a b = st(b \<mapsto> s)" using assms(1) by (simp add: array_copy_def)
  from assms(3) obtain v2 v1 s1 where
    g2: "getitem s (pos2 act) = Inr v2" and g1: "getitem s (pos1 act) = Inr v1"
    and s1: "setitem s (pos1 act) v2 = Inr s1" and s2: "setitem s1 (pos2 act) v1 = Inr t"
    by (auto simp: do_action_def split: sum.splits)
  show ?thesis
    by (simp add: do_action_store_def c store_getitem_def store_setitem_def g2 g1 s1 s2)
qed

lemma available_action_in_grid:
  assumes sh: "has_shape n n s" and acts: "available_actions s = Inr acts" and a: "a \<in> set acts"
  shows "in_grid n n (pos1 a) \<and> in_grid n n (pos2 a) \<and> getitem s (pos1 a) = Inr 0"
proof -
  from acts obtain x y where w: "where_first s 0 = Some (x, y)"
    by (auto simp: available_actions_def split: option.splits)
  from where_first_Some[OF w] have b: "x < length s" "y < length (s ! x)" "s ! x ! y = 0" by auto
  then have g: "in_grid n n (int x, int y)"
    using sh has_shape_row[OF sh, of x] by (auto simp: in_grid_def has_shape_def)
  from getitem_in[OF sh g] b have z: "getitem s (int x, int y) = Inr 0" by simp
  from available_actions_set(1)[OF sh w acts] a g z show ?thesis by auto
qed

text \<open>
  Claim C5. For every square state \<open>s\<close> and every action \<open>a\<close> that
  \<open>available_actions\<close> lists for it, \<open>do_action\<close> returns a state \<open>t\<close>, and
  \<open>do_action\<close> on \<open>t\<close> with the same action returns \<open>s\<close>. In the store: the first
  call leaves the array it is given, at address \<open>x\<close>, as it was and puts \<open>t\<close> at the
  fresh address \<open>y\<close>; the second leaves \<open>x\<close> and \<open>y\<close> as they were and puts
  \<open>s\<close> at the fresh address \<open>z\<close>.
\<close>

theorem do_action_involution:
  assumes sh: "has_shape n n s" and acts: "available_actions s = Inr acts" and a: "a \<in> set acts"
    and x: "st x = Some s" and y: "fresh_addr st y" and z: "fresh_addr st z" and zy: "z \<noteq> y"
  shows "\<exists>t. do_action s a = Inr t \<and> do_action t a = Inr s \<and>
           do_action_store st x y a = Inr (st(y \<mapsto> t), y) \<and>
           do_action_store (st(y \<mapsto> t)) y z a = Inr (st(y \<mapsto> t, z \<mapsto> s), z) \<and>
           (st(y \<mapsto> t, z \<mapsto> s)) x = Some s"
proof -
  from available_action_in_grid[OF sh acts a]
  have p: "in_grid n n (pos1 a)" and q: "in_grid n n (pos2 a)" by auto
  have aeq: "a = Action (pos1 a) (pos2 a)" by simp
  from do_action_in[OF sh p q] aeq obtain t where t: "do_action s a = Inr t" by metis
  from do_action_twice[OF sh p q] t aeq have rev_move: "do_action t a = Inr s" by metis
  have yx: "y \<noteq> x" and zx: "z \<noteq> x" using x y z by (auto simp: fresh_addr_def)
  have first: "do_action_store st x y a = Inr (st(y \<mapsto> t), y)"
    using do_action_store_eq[where st=st, OF x yx t] .
  have "(st(y \<mapsto> t)) y = Some t" by simp
  from do_action_store_eq[where st="st(y \<mapsto> t)", OF this zy rev_move]
  have second: "do_action_store (st(y \<mapsto> t)) y z a = Inr (st(y \<mapsto> t, z \<mapsto> s), z)" .
  have "(st(y \<mapsto> t, z \<mapsto> s)) x = Some s" using x yx zx by simp
  with t rev_move first second show ?thesis by blast
qed

theorem do_action_involution_witness:
  "has_shape 2 2 [[1, 2], [0, 3]] \<and> available_actions [[1, 2], [0, 3]] =
      Inr [Action (1, 0) (0, 0), Action (1, 0) (1, 1)] \<and>
   do_action [[1, 2], [0, 3]] (Action (1, 0) (1, 1)) = Inr [[1, 2], [3, 0]] \<and>
   do_action [[1, 2], [3, 0]] (Action (1, 0) (1, 1)) = Inr [[1, 2], [0, 3]] \<and>
   (\<exists>t. do_action_store [0 \<mapsto> [[1, 2], [0, 3]]] 0 1 (Action (1, 0) (1, 1))
            = Inr ([0 \<mapsto> [[1, 2], [0, 3]], 1 \<mapsto> t], 1) \<and>
        do_action_store [0 \<mapsto> [[1, 2], [0, 3]], 1 \<mapsto> t] 1 2 (Action (1, 0) (1, 1))
            = Inr ([0 \<mapsto> [[1, 2], [0, 3]], 1 \<mapsto> t, 2 \<mapsto> [[1, 2], [0, 3]]], 2))"
proof -
  have sh: "has_shape 2 2 [[1, 2], [0, 3]]" by (simp add: has_shape_def)
  have acts: "available_actions [[1, 2], [0, 3]] = Inr [Action (1, 0) (0, 0), Action (1, 0) (1, 1)]"
    by (simp add: available_actions_def)
  have a: "Action (1, 0) (1, 1) \<in> set [Action (1, 0) (0, 0), Action (1, 0) (1, 1)]" by simp
  have x: "[0 \<mapsto> [[1, 2], [0, 3]]] (0::nat) = Some [[1, 2], [0, 3::int]]" by simp
  have y: "fresh_addr [0 \<mapsto> [[1, 2], [0, 3]]] (1::nat)" by (simp add: fresh_addr_def)
  have z: "fresh_addr [0 \<mapsto> [[1, 2], [0, 3]]] (2::nat)" by (simp add: fresh_addr_def)
  have d1: "do_action [[1, 2], [0, 3]] (Action (1, 0) (1, 1)) = Inr [[1, 2], [3, 0]]"
    by (simp add: do_action_def getitem_def setitem_def norm_index_def)
  have d2: "do_action [[1, 2], [3, 0]] (Action (1, 0) (1, 1)) = Inr [[1, 2], [0, 3]]"
    by (simp add: do_action_def getitem_def setitem_def norm_index_def)
  from do_action_involution[OF sh acts a x y z] sh acts d1 d2 show ?thesis by auto
qed

text \<open>
  Claim C10. For every array \<open>s\<close> of shape \<open>(m, n)\<close> and any two cell indices \<open>p\<close>
  and \<open>q\<close> inside it (the blank need not be at either, and they need not be next to
  each other), \<open>do_action\<close> returns without error an array \<open>t\<close> of the same shape
  that holds at \<open>q\<close> what \<open>s\<close> holds at \<open>p\<close>, at \<open>p\<close> what \<open>s\<close> holds at \<open>q\<close>,
  and elsewhere what \<open>s\<close> holds; in the store, \<open>t\<close> is put at the fresh address
  \<open>b\<close>, and the array given, at address \<open>a\<close>, still holds \<open>s\<close>.
\<close>

theorem do_action_exchanges_cells:
  assumes sh: "has_shape m n s" and p: "in_grid m n p" and q: "in_grid m n q"
    and a: "st a = Some s" and b: "fresh_addr st b"
  shows "\<exists>t. do_action s (Action p q) = Inr t \<and>
           do_action_store st a b (Action p q) = Inr (st(b \<mapsto> t), b) \<and>
           (st(b \<mapsto> t)) a = Some s \<and>
           has_shape m n t \<and>
           (\<forall>c. in_grid m n c \<longrightarrow>
              getitem t c = (if c = q then getitem s p else if c = p then getitem s q
                             else getitem s c))"
proof -
  from do_action_in[OF sh p q] obtain t where t: "do_action s (Action p q) = Inr t"
    and sht: "has_shape m n t"
    and cells: "\<forall>c. in_grid m n c \<longrightarrow>
              getitem t c = (if c = q then getitem s p else if c = p then getitem s q
                             else getitem s c)"
    by blast
  have ba: "b \<noteq> a" using a b by (auto simp: fresh_addr_def)
  from do_action_store_eq[where st=st, OF a ba t]
  have "do_action_store st a b (Action p q) = Inr (st(b \<mapsto> t), b)" .
  moreover have "(st(b \<mapsto> t)) a = Some s" using a ba by simp
  ultimately show ?thesis using t sht cells by blast
qed

theorem do_action_exchanges_cells_witness:
  "has_shape 2 3 [[1, 2, 3], [4, 5, 0]] \<and> in_grid 2 3 (0, 0) \<and> in_grid 2 3 (1, 1) \<and>
   do_action [[1, 2, 3], [4, 5, 0]] (Action (0, 0) (1, 1)) = Inr [[5, 2, 3], [4, 1, 0]] \<and>
   (\<exists>t. do_action_store [7 \<mapsto> [[1, 2, 3], [4, 5, 0]]] 7 8 (Action (0, 0) (1, 1))
           = Inr ([7 \<mapsto> [[1, 2, 3], [4, 5, 0]], 8 \<mapsto> t], 8) \<and>
        getitem t (0, 0) = Inr 5 \<and> getitem t (1, 1) = Inr 1 \<and> getitem t (1, 2) = Inr 0)"
proof -
  have sh: "has_shape 2 3 [[1, 2, 3], [4, 5, 0]]" by (simp add: has_shape_def)
  have p: "in_grid 2 3 (0, 0)" and q: "in_grid 2 3 (1, 1)" and r: "in_grid 2 3 (1, 2)"
    by (simp_all add: in_grid_def)
  have a: "[7 \<mapsto> [[1, 2, 3], [4, 5, 0]]] (7::nat) = Some [[1, 2, 3], [4, 5, 0::int]]" by simp
  have b: "fresh_addr [7 \<mapsto> [[1, 2, 3], [4, 5, 0]]] (8::nat)" by (simp add: fresh_addr_def)
  have d: "do_action [[1, 2, 3], [4, 5, 0]] (Action (0, 0) (1, 1)) = Inr [[5, 2, 3], [4, 1, 0]]"
    by (simp add: do_action_def getitem_def setitem_def norm_index_def)
  have g: "getitem [[1, 2, 3], [4, 5, 0]] (0, 0) = Inr 1"
    "getitem [[1, 2, 3], [4, 5, 0]] (1, 1) = Inr 5" "getitem [[1, 2, 3], [4, 5, 0]] (1, 2) = Inr 0"
    by (simp_all add: getitem_def norm_index_def)
  from do_action_exchanges_cells[OF sh p q a b] obtain t where
    t: "do_action_store [7 \<mapsto> [[1, 2, 3], [4, 5, 0]]] 7 8 (Action (0, 0) (1, 1))
           = Inr ([7 \<mapsto> [[1, 2, 3], [4, 5, 0]], 8 \<mapsto> t], 8)"
    and c: "\<forall>c. in_grid 2 3 c \<longrightarrow>
              getitem t c = (if c = (1, 1) then getitem [[1, 2, 3], [4, 5, 0]] (0, 0)
                 else if c = (0, 0) then getitem [[1, 2, 3], [4, 5, 0]] (1, 1)
                             else getitem [[1, 2, 3], [4, 5, 0]] c)"
    by blast
  from c p q r g have "getitem t (0, 0) = Inr 5 \<and> getitem t (1, 1) = Inr 1 \<and> getitem t (1, 2) = Inr 0"
    by simp
  with sh p q d t show ?thesis by blast
qed

section \<open>Properties of the heuristic evaluators\<close>

lemma conflicts_with_nonneg: "0 \<le> conflicts_with x ys line2"
  by (induction ys) (auto split: option.splits)

lemma count_conflicts_nonneg: "0 \<le> count_conflicts xs line2"
  by (induction xs) (auto simp: conflicts_with_nonneg)

lemma row_conflicts_ge: "row_conflicts s goal is cost = Inr r \<Longrightarrow> cost \<le> r"
proof (induction "is" arbitrary: cost)
  case Nil
  then show ?case by simp
next
  case (Cons i "is")
  from Cons.prems have i: "i < nrows goal"
    and r: "row_conflicts s goal is (cost + count_conflicts (s ! i) (goal ! i)) = Inr r"
    by (auto split: if_splits)
  from Cons.IH[OF r] count_conflicts_nonneg[of "s ! i" "goal ! i"] show ?case by linarith
qed

lemma column_conflicts_ge: "column_conflicts s goal js cost = Inr r \<Longrightarrow> cost \<le> r"
proof (induction js arbitrary: cost)
  case Nil
  then show ?case by simp
next
  case (Cons j js)
  from Cons.prems have "j < ncols goal"
    and r: "column_conflicts s goal js (cost + count_conflicts (column s j) (column goal j)) = Inr r"
    by (auto split: if_splits)
  from Cons.IH[OF r] count_conflicts_nonneg[of "column s j" "column goal j"] show ?case by linarith
qed

lemma row_conflicts_returns:
  "\<forall>i \<in> set is. i < nrows goal \<Longrightarrow> \<exists>r. row_conflicts s goal is cost = Inr r"
  by (induction "is" arbitrary: cost) auto

lemma column_conflicts_returns:
  "\<forall>j \<in> set js. j < ncols goal \<Longrightarrow> \<exists>r. column_conflicts s goal js cost = Inr r"
  by (induction js arbitrary: cost) auto

lemma enhanced_ge_manhattan:
  assumes "enhanced_manhattan s goal = Inr e"
  shows "\<exists>m. manhattan_distance s goal = Inr m \<and> m \<le> e"
proof -
  from assms obtain m c1 where m: "manhattan_distance s goal = Inr m"
    and r: "row_conflicts s goal [0..<nrows s] m = Inr c1"
    and c: "column_conflicts s goal [0..<ncols s] c1 = Inr e"
    by (auto simp: enhanced_manhattan_def split: sum.splits)
  from row_conflicts_ge[OF r] column_conflicts_ge[OF c] have "m \<le> e" by simp
  with m show ?thesis by blast
qed

lemma enhanced_returns:
  assumes m: "manhattan_distance s goal = Inr m"
    and "nrows s \<le> nrows goal" "ncols s \<le> ncols goal"
  shows "\<exists>e. enhanced_manhattan s goal = Inr e"
proof -
  have "\<forall>i \<in> set [0..<nrows s]. i < nrows goal" using assms(2) by auto
  from row_conflicts_returns[OF this] obtain c1 where
    r: "row_conflicts s goal [0..<nrows s] m = Inr c1" by blast
  have "\<forall>j \<in> set [0..<ncols s]. j < ncols goal" using assms(3) by auto
  from column_conflicts_returns[OF this] obtain e where
    c: "column_conflicts s goal [0..<ncols s] c1 = Inr e" by blast
  show ?thesis by (simp add: enhanced_manhattan_def m r c)
qed

lemma manhattan_loop_returns:
  assumes sh: "has_shape m n s"
    and ps: "\<forall>(i, j) \<in> set ps. i < m \<and> j < n"
    and sub: "set (concat s) \<subseteq> insert 0 (set (concat goal))"
  shows "\<exists>r. manhattan_loop s goal ps acc = Inr r"
  using ps
proof (induction ps arbitrary: acc)
  case Nil
  then show ?case by simp
next
  case (Cons p ps)
  obtain i j where p: "p = (i, j)" by (cases p)
  from Cons.prems p have ij: "i < m" "j < n" and rest: "\<forall>(i, j) \<in> set ps. i < m \<and> j < n"
    by auto
  have g: "in_grid m n (int i, int j)" using ij by (simp add: in_grid_def)
  have get: "getitem s (int i, int j) = Inr (s ! i ! j)" using getitem_in[OF sh g] by simp
  show ?case
  proof (cases "s ! i ! j = 0")
    case True
    then show ?thesis using Cons.IH[OF rest] p get by simp
  next
    case False
    have "s ! i ! j \<in> set (concat s)"
      using concat_nth_shape[OF sh ij] by (metis nth_mem)
    with sub False have "s ! i ! j \<in> set (concat goal)" by auto
    then obtain gx gy where w: "where_first goal (s ! i ! j) = Some (gx, gy)"
      using where_first_None[of goal "s ! i ! j"] by (cases "where_first goal (s ! i ! j)") auto
    show ?thesis using Cons.IH[OF rest] p get False w by simp
  qed
qed

lemma manhattan_returns:
  assumes "valid_state n s" "valid_state n goal"
  shows "\<exists>m. manhattan_distance s goal = Inr m"
proof -
  from assms have sh: "has_shape n n s" and len: "length s = n"
    by (simp_all add: valid_state_def has_shape_def)
  have "mset (concat s) = mset (concat goal)" using assms by (simp add: valid_state_def)
  then have "set (concat s) = set (concat goal)" by (rule mset_eq_setD)
  then have sub: "set (concat s) \<subseteq> insert 0 (set (concat goal))" by auto
  have ps: "\<forall>(i, j) \<in> set (List.product [0..<n] [0..<n]). i < n \<and> j < n" by auto
  from manhattan_loop_returns[OF sh ps sub] show ?thesis
    by (simp add: manhattan_distance_def len)
qed

lemma valid_state_shape: "valid_state n s \<Longrightarrow> nrows s = n \<and> ncols s = n"
  by (cases s) (auto simp: valid_state_def has_shape_def nrows_def ncols_def)

text \<open>
  Claim C8. Whenever \<open>enhanced_manhattan\<close> returns a value, \<open>manhattan_distance\<close>
  returns a value on the same arguments and the former is at least the latter; and for
  every valid state and valid goal of the same dimension both return.
\<close>

theorem enhanced_dominates_manhattan:
  "(\<forall>e. enhanced_manhattan s goal = Inr e \<longrightarrow>
      (\<exists>m. manhattan_distance s goal = Inr m \<and> m \<le> e)) \<and>
   (valid_state n s \<and> valid_state n goal \<longrightarrow>
      (\<exists>m e. manhattan_distance s goal = Inr m \<and> enhanced_manhattan s goal = Inr e \<and> m \<le> e))"
proof -
  have total: "\<exists>m e. manhattan_distance s goal = Inr m \<and> enhanced_manhattan s goal = Inr e \<and> m \<le> e"
    if v: "valid_state n s" "valid_state n goal"
  proof -
    from manhattan_returns[OF v] obtain m where m: "manhattan_distance s goal = Inr m" by blast
    from valid_state_shape[OF v(1)] valid_state_shape[OF v(2)]
    have "nrows s \<le> nrows goal" "ncols s \<le> ncols goal" by simp_all
    from enhanced_returns[OF m this] obtain e where e: "enhanced_manhattan s goal = Inr e" by blast
    from enhanced_ge_manhattan[OF e] m e show ?thesis by auto
  qed
  then show ?thesis using enhanced_ge_manhattan by blast
qed

lemma valid_goal3: "valid_state 3 [[1, 2, 3], [4, 5, 6], [7, 8, 0]]"
  by (simp add: valid_state_def has_shape_def upt_conv_Cons)

lemma valid_far3: "valid_state 3 [[3, 8, 1], [6, 5, 4], [0, 2, 7]]"
  by code_simp

lemma manhattan_far3:
  "manhattan_distance [[3, 8, 1], [6, 5, 4], [0, 2, 7]] [[1, 2, 3], [4, 5, 6], [7, 8, 0]] = Inr 14"
  by code_simp

lemma enhanced_far3:
  "enhanced_manhattan [[3, 8, 1], [6, 5, 4], [0, 2, 7]] [[1, 2, 3], [4, 5, 6], [7, 8, 0]] = Inr 28"
  by code_simp

theorem enhanced_dominates_manhattan_witness:
  "valid_state 3 [[3, 8, 1], [6, 5, 4], [0, 2, 7]] \<and> valid_state 3 [[1, 2, 3], [4, 5, 6], [7, 8, 0]] \<and>
   manhattan_distance [[3, 8, 1], [6, 5, 4], [0, 2, 7]] [[1, 2, 3], [4, 5, 6], [7, 8, 0]] = Inr 14 \<and>
   enhanced_manhattan [[3, 8, 1], [6, 5, 4], [0, 2, 7]] [[1, 2, 3], [4, 5, 6], [7, 8, 0]] = Inr 28 \<and>
   (\<exists>m e. manhattan_distance [[3, 8, 1], [6, 5, 4], [0, 2, 7]] [[1, 2, 3], [4, 5, 6], [7, 8, 0]] = Inr m \<and>
      enhanced_manhattan [[3, 8, 1], [6, 5, 4], [0, 2, 7]] [[1, 2, 3], [4, 5, 6], [7, 8, 0]] = Inr e \<and>
      m \<le> e)"
  using enhanced_dominates_manhattan[of "[[3, 8, 1], [6, 5, 4], [0, 2, 7]]"
      "[[1, 2, 3], [4, 5, 6], [7, 8, 0]]" 3]
    valid_far3 valid_goal3 manhattan_far3 enhanced_far3
  by blast

subsection \<open>A state on which the enhanced heuristic exceeds the distance\<close>

lemma successors_iff:
  "(t \<in> set (successors s)) =
     (\<exists>acts a. available_actions s = Inr acts \<and> a \<in> set acts \<and> do_action s a = Inr t)"
proof (cases "available_actions s")
  case (Inl e)
  then show ?thesis by (simp add: successors_def)
next
  case (Inr acts)
  have "(t \<in> set (List.map_filter (\<lambda>a. case do_action s a of Inl e \<Rightarrow> None | Inr t \<Rightarrow> Some t) acts))
      = (\<exists>a \<in> set acts. do_action s a = Inr t)"
    by (induction acts) (auto simp: map_filter_simps split: sum.splits)
  with Inr show ?thesis by (auto simp: successors_def)
qed

lemma run_actions_reach: "run_actions s as = Some t \<Longrightarrow> reach_in (length as) s t"
proof (induction as arbitrary: s)
  case Nil
  then show ?case by simp
next
  case (Cons a as)
  from Cons.prems obtain acts u where acts: "available_actions s = Inr acts" and a: "a \<in> set acts"
    and u: "do_action s a = Inr u" and rest: "run_actions u as = Some t"
    by (auto split: sum.splits if_splits)
  have "u \<in> set (successors s)"
    using acts a u by (auto simp: successors_iff)
  with Cons.IH[OF rest] show ?case by auto
qed

lemma far_path_runs: "run_actions [[3, 8, 1], [6, 5, 4], [0, 2, 7]] far_path = Some [[1, 2, 3], [4, 5, 6], [7, 8, 0]]"
  unfolding far_path_def by code_simp

lemma far_path_back_runs: "run_actions [[1, 2, 3], [4, 5, 6], [7, 8, 0]] far_path_back = Some [[3, 8, 1], [6, 5, 4], [0, 2, 7]]"
  unfolding far_path_back_def by code_simp

text \<open>
  Claim C2 fails on the code. The state \<open>[[3, 8, 1], [6, 5, 4], [0, 2, 7]]\<close> is valid
  and reachable from the goal; \<open>enhanced_manhattan\<close> returns 28 for it, yet 26 legal
  moves lead from it to the goal.
\<close>

theorem enhanced_manhattan_overestimates:
  "valid_state 3 [[3, 8, 1], [6, 5, 4], [0, 2, 7]] \<and> valid_state 3 [[1, 2, 3], [4, 5, 6], [7, 8, 0]] \<and>
   run_actions [[1, 2, 3], [4, 5, 6], [7, 8, 0]] far_path_back = Some [[3, 8, 1], [6, 5, 4], [0, 2, 7]] \<and>
   enhanced_manhattan [[3, 8, 1], [6, 5, 4], [0, 2, 7]] [[1, 2, 3], [4, 5, 6], [7, 8, 0]] = Inr 28 \<and>
   run_actions [[3, 8, 1], [6, 5, 4], [0, 2, 7]] far_path = Some [[1, 2, 3], [4, 5, 6], [7, 8, 0]] \<and>
   length far_path = 26 \<and>
   reach_in 26 [[3, 8, 1], [6, 5, 4], [0, 2, 7]] [[1, 2, 3], [4, 5, 6], [7, 8, 0]]"
proof -
  have len: "length far_path = 26" by (simp add: far_path_def)
  from run_actions_reach[OF far_path_runs] len
  have "reach_in 26 [[3, 8, 1], [6, 5, 4], [0, 2, 7]] [[1, 2, 3], [4, 5, 6], [7, 8, 0]]" by simp
  with valid_far3 valid_goal3 far_path_back_runs enhanced_far3 far_path_runs len
  show ?thesis by blast
qed

section \<open>Properties of the path reconstruction\<close>

lemma length_ancestors: "length (ancestors n) = depth n + 1"
  by (induction n rule: ancestors.induct) auto

lemma length_path_to_start: "length (path_to_start n) = depth n + 1"
  by (induction n rule: path_to_start.induct) auto

lemma ancestors_last: "ancestors n ! depth n = n"
  by (induction n rule: ancestors.induct) (auto simp: nth_append length_ancestors)

lemma ancestors_first: "parent (ancestors n ! 0) = None"
  by (induction n rule: ancestors.induct) (auto simp: nth_append length_ancestors)

lemma ancestors_link: "k < depth n \<Longrightarrow> parent (ancestors n ! Suc k) = Some (ancestors n ! k)"
proof (induction n rule: ancestors.induct)
  case (1 s a g h)
  then show ?case by simp
next
  case (2 s p a g h)
  show ?case
  proof (cases "k < depth p")
    case True
    with 2 show ?thesis by (simp add: nth_append length_ancestors)
  next
    case False
    with 2 have "k = depth p" by simp
    then show ?thesis by (simp add: nth_append length_ancestors ancestors_last)
  qed
qed

lemma reconstruct_path_eq:
  "reconstruct_path n =
     (state (ancestors n ! 0), None) # map (\<lambda>m. (state m, action m)) (tl (ancestors n))"
proof (induction n rule: ancestors.induct)
  case (1 s a g h)
  then show ?case by (simp add: reconstruct_path_def)
next
  case (2 s p a g h)
  have ne: "ancestors p \<noteq> []" using length_ancestors[of p] by auto
  then have "0 < length (ancestors p)" by simp
  with 2 ne show ?case
    by (simp add: reconstruct_path_def nth_append)
qed

text \<open>
  Claim C7. For a node whose parent chain has \<open>depth n\<close> links, with \<open>ancestors n\<close>
  the chain from the start node (the node without parent) to \<open>n\<close>,
  \<open>reconstruct_path\<close> returns \<open>depth n + 1\<close> entries: entry 0 is the state of the
  start node with no action, and entry \<open>k\<close>, for \<open>1 \<le> k \<le> depth n\<close>, is the state and
  the action of the \<open>k\<close>-th node of the chain.
\<close>

theorem reconstruct_path_chronological:
  "length (reconstruct_path n) = depth n + 1 \<and>
   length (ancestors n) = depth n + 1 \<and>
   parent (ancestors n ! 0) = None \<and>
   ancestors n ! depth n = n \<and>
   (\<forall>k. k < depth n \<longrightarrow> parent (ancestors n ! Suc k) = Some (ancestors n ! k)) \<and>
   reconstruct_path n ! 0 = (state (ancestors n ! 0), None) \<and>
   (\<forall>k. 1 \<le> k \<and> k \<le> depth n \<longrightarrow>
      reconstruct_path n ! k = (state (ancestors n ! k), action (ancestors n ! k)))"
proof -
  have len: "length (reconstruct_path n) = depth n + 1"
    by (simp add: reconstruct_path_def length_path_to_start)
  have later: "reconstruct_path n ! k = (state (ancestors n ! k), action (ancestors n ! k))"
    if k1: "1 \<le> k" and k2: "k \<le> depth n" for k
  proof -
    obtain k' where k': "k = Suc k'" using k1 by (cases k) auto
    have "k' < length (tl (ancestors n))" using k2 k' by (simp add: length_ancestors)
    then show ?thesis
      by (simp add: reconstruct_path_eq k' nth_tl)
  qed
  have first: "reconstruct_path n ! 0 = (state (ancestors n ! 0), None)"
    by (simp add: reconstruct_path_eq)
  show ?thesis
    using len length_ancestors[of n] ancestors_first[of n] ancestors_last[of n]
      ancestors_link[of _ n] later first
    by blast
qed

theorem reconstruct_path_chronological_witness:
  "depth (Node [[1, 2], [3, 0]] (Some (Node [[1, 2], [0, 3]] None None 0 1))
            (Some (Action (1, 0) (1, 1))) 1 0) = 1 \<and>
   reconstruct_path (Node [[1, 2], [3, 0]] (Some (Node [[1, 2], [0, 3]] None None 0 1))
            (Some (Action (1, 0) (1, 1))) 1 0)
     = [([[1, 2], [0, 3]], None), ([[1, 2], [3, 0]], Some (Action (1, 0) (1, 1)))] \<and>
   length (reconstruct_path (Node [[1, 2], [3, 0]] (Some (Node [[1, 2], [0, 3]] None None 0 1))
            (Some (Action (1, 0) (1, 1))) 1 0)) = 1 + 1"
  using reconstruct_path_chronological[of "Node [[1, 2], [3, 0]]
     (Some (Node [[1, 2], [0, 3]] None None 0 1)) (Some (Action (1, 0) (1, 1))) 1 0"]
  by (simp add: reconstruct_path_def)

section \<open>Properties of the priority queue\<close>

subsection \<open>Moving an entry towards the root\<close>

lemma mset_swap_update:
  assumes "p < length xs" "q < length xs" "p \<noteq> q"
  shows "mset (xs[p := xs ! q, q := x]) = mset (xs[p := x])"
proof -
  let ?A = "xs[p := x]"
  have "xs[p := xs ! q, q := x] = ?A[q := ?A ! p, p := ?A ! q]"
    using assms by (intro nth_equalityI) (auto simp: nth_list_update)
  moreover have "mset (?A[q := ?A ! p, p := ?A ! q]) = mset ?A"
    by (rule mset_swap) (use assms in simp_all)
  ultimately show ?thesis by simp
qed

lemma siftdown_loop_rec:
  "startpos < pos \<Longrightarrow> node_lt newitem (heap ! ((pos - 1) div 2)) \<Longrightarrow>
   siftdown_loop heap startpos pos newitem =
     siftdown_loop (heap[pos := heap ! ((pos - 1) div 2)]) startpos ((pos - 1) div 2) newitem"
  by (subst siftdown_loop.simps) (simp add: Let_def)

lemma siftdown_loop_stop:
  "\<not> (startpos < pos \<and> node_lt newitem (heap ! ((pos - 1) div 2))) \<Longrightarrow>
   siftdown_loop heap startpos pos newitem = heap[pos := newitem]"
  by (subst siftdown_loop.simps) (auto simp: Let_def)

lemma siftdown_loop_length [simp]:
  "length (siftdown_loop heap startpos pos newitem) = length heap"
proof (induction heap startpos pos newitem rule: siftdown_loop.induct)
  case (1 heap startpos pos newitem)
  show ?case
  proof (cases "startpos < pos \<and> node_lt newitem (heap ! ((pos - 1) div 2))")
    case True
    with 1 show ?thesis by (simp add: siftdown_loop_rec)
  next
    case False
    then show ?thesis by (simp add: siftdown_loop_stop)
  qed
qed

lemma siftdown_loop_correct_aux:
  assumes "pos < length heap" "heap_except (heap[pos := newitem]) pos" "startpos = 0"
  shows "heap_inv (siftdown_loop heap startpos pos newitem) \<and>
         mset (siftdown_loop heap startpos pos newitem) = mset (heap[pos := newitem])"
  using assms
proof (induction heap startpos pos newitem rule: siftdown_loop.induct)
  case (1 heap startpos pos newitem)
  note sp = "1.prems"(3)
  let ?A = "heap[pos := newitem]"
  let ?pp = "(pos - 1) div 2"
  note ex = "1.prems"(2)[unfolded heap_except_def]
  have lenA: "length ?A = length heap" by simp
  show ?case
  proof (cases "0 < pos \<and> node_lt newitem (heap ! ?pp)")
    case True
    then have pos0: "0 < pos" and lt: "f_cost newitem < f_cost (heap ! ?pp)"
      by (simp_all add: node_lt_def)
    have pplt: "?pp < pos" using pos0 by arith
    have pplen: "?pp < length heap" using pplt "1.prems"(1) by simp
    let ?h' = "heap[pos := heap ! ?pp]"
    let ?A' = "?h'[?pp := newitem]"
    have unfold: "siftdown_loop heap startpos pos newitem = siftdown_loop ?h' startpos ?pp newitem"
      using True sp by (simp add: siftdown_loop_rec)
    have A'nth: "?A' ! i = (if i = ?pp then newitem else if i = pos then heap ! ?pp else heap ! i)"
      if "i < length heap" for i
      using that pplt by (simp add: nth_list_update)
    have Anth: "?A ! i = (if i = pos then newitem else heap ! i)" if "i < length heap" for i
      using that by (simp add: nth_list_update)
    have ex1: "f_cost (?A ! ((i - 1) div 2)) \<le> f_cost (?A ! i)"
      if "0 < i" "i < length heap" "i \<noteq> pos" for i
      using "1.prems"(2) that unfolding heap_except_def length_list_update by blast
    have ex2: "f_cost (?A ! ?pp) \<le> f_cost (?A ! i)"
      if "0 < i" "i < length heap" "(i - 1) div 2 = pos" for i
      using "1.prems"(2) that pos0 unfolding heap_except_def length_list_update by blast
    have e1: "f_cost (?A' ! ((i - 1) div 2)) \<le> f_cost (?A' ! i)"
      if i: "0 < i" "i < length heap" "i \<noteq> ?pp" for i
    proof -
      have pi: "(i - 1) div 2 < i" using i(1) by arith
      then have pil: "(i - 1) div 2 < length heap" using i(2) by simp
      show ?thesis
      proof (cases "i = pos")
        case True
        then show ?thesis using lt pplt pplen "1.prems"(1) by (simp add: nth_list_update)
      next
        case ipos: False
        show ?thesis
        proof (cases "(i - 1) div 2 = pos")
          case True
          from ex2[OF i(1) i(2) True] ipos i pplt pplen True "1.prems"(1) show ?thesis
            by (simp add: nth_list_update)
        next
          case npos: False
          show ?thesis
          proof (cases "(i - 1) div 2 = ?pp")
            case True
            from ex1[OF i(1) i(2) ipos] True ipos i pplt pplen lt "1.prems"(1) show ?thesis
              by (simp add: nth_list_update)
          next
            case False
            from ex1[OF i(1) i(2) ipos] False npos ipos i pil show ?thesis
              by (simp add: nth_list_update)
          qed
        qed
      qed
    qed
    have e2: "f_cost (?A' ! ((?pp - 1) div 2)) \<le> f_cost (?A' ! i)"
      if i: "0 < i" "i < length heap" "(i - 1) div 2 = ?pp" "0 < ?pp" for i
    proof -
      have gp: "(?pp - 1) div 2 < ?pp" using i(4) by arith
      have gpl: "(?pp - 1) div 2 < length heap" using gp pplen by simp
      have gpp: "f_cost (heap ! ((?pp - 1) div 2)) \<le> f_cost (heap ! ?pp)"
        using ex1[OF i(4) pplen] pplt gp by (simp add: nth_list_update)
      have ine: "i \<noteq> ?pp" using i(3) i(1) by arith
      show ?thesis
      proof (cases "i = pos")
        case True
        then show ?thesis using gpp gp pplt i "1.prems"(1) by (simp add: nth_list_update)
      next
        case False
        have "f_cost (heap ! ?pp) \<le> f_cost (heap ! i)"
          using ex1[OF i(1) i(2) False] i(3) False pplt by (simp add: nth_list_update)
        with gpp False ine gp pplt i show ?thesis by (simp add: nth_list_update)
      qed
    qed
    have exc': "heap_except ?A' ?pp"
      unfolding heap_except_def length_list_update using e1 e2 by blast
    have ppl': "?pp < length ?h'" using pplen by simp
    have c1: "startpos < pos" using pos0 sp by simp
    have c2: "node_lt newitem (heap ! ?pp)" using True by simp
    from "1.IH"[OF c1 refl refl c2 ppl' exc' sp]
    have ih: "heap_inv (siftdown_loop ?h' startpos ?pp newitem) \<and>
         mset (siftdown_loop ?h' startpos ?pp newitem) = mset ?A'" .
    have "mset ?A' = mset ?A"
      using mset_swap_update[OF "1.prems"(1) pplen] pplt by simp
    with ih unfold show ?thesis by simp
  next
    case False
    have unfold: "siftdown_loop heap startpos pos newitem = ?A"
      using False sp by (simp add: siftdown_loop_stop)
    have "heap_inv ?A"
      unfolding heap_inv_def
    proof (intro allI impI)
      fix i assume i: "0 < i \<and> i < length ?A"
      show "f_cost (?A ! ((i - 1) div 2)) \<le> f_cost (?A ! i)"
      proof (cases "i = pos")
        case True
        with False i have nlt: "\<not> node_lt newitem (heap ! ?pp)" by simp
        have "?pp < pos" using True i by arith
        then show ?thesis using nlt True "1.prems"(1)
          by (simp add: node_lt_def nth_list_update)
      next
        case False
        then show ?thesis using "1.prems"(2) i unfolding heap_except_def by blast
      qed
    qed
    with unfold show ?thesis by simp
  qed
qed

lemma siftdown_loop_correct:
  assumes "pos < length heap" "heap_except (heap[pos := newitem]) pos"
  shows "heap_inv (siftdown_loop heap 0 pos newitem)"
    and "mset (siftdown_loop heap 0 pos newitem) = mset (heap[pos := newitem])"
  using siftdown_loop_correct_aux[OF assms refl] by simp_all

subsection \<open>Pushing, and moving the hole to a leaf\<close>

lemma heappush_correct:
  assumes "heap_inv heap"
  shows "heap_inv (heappush heap item)" and "mset (heappush heap item) = add_mset item (mset heap)"
proof -
  let ?h = "heap @ [item]"
  have eq: "heappush heap item = siftdown_loop ?h 0 (length heap) item"
    by (simp add: heappush_def siftdown_def)
  have upd: "?h[length heap := item] = ?h" by simp
  have exc: "heap_except ?h (length heap)"
    unfolding heap_except_def
  proof (intro conjI allI impI)
    fix i assume i: "0 < i \<and> i < length ?h \<and> i \<noteq> length heap"
    then have il: "i < length heap" by simp
    have "(i - 1) div 2 < length heap" using il by arith
    then show "f_cost (?h ! ((i - 1) div 2)) \<le> f_cost (?h ! i)"
      using assms i il unfolding heap_inv_def by (simp add: nth_append)
  next
    fix i assume i: "0 < i \<and> i < length ?h \<and> (i - 1) div 2 = length heap \<and> 0 < length heap"
    then have "(i - 1) div 2 < i" by arith
    with i have False by simp
    then show "f_cost (?h ! ((length heap - 1) div 2)) \<le> f_cost (?h ! i)" ..
  qed
  have pl: "length heap < length ?h" by simp
  from siftdown_loop_correct[OF pl, of item] exc upd eq
  show "heap_inv (heappush heap item)" and "mset (heappush heap item) = add_mset item (mset heap)"
    by simp_all
qed

lemma siftup_loop_rec:
  "2 * pos + 1 < length heap \<Longrightarrow>
   siftup_loop heap pos =
     siftup_loop (heap[pos := heap ! smaller_child heap pos]) (smaller_child heap pos)"
  by (subst siftup_loop.simps) (simp add: Let_def smaller_child_def)

lemma siftup_loop_stop:
  "\<not> 2 * pos + 1 < length heap \<Longrightarrow> siftup_loop heap pos = (heap, pos)"
  by (subst siftup_loop.simps) (simp add: Let_def)

lemma siftup_loop_correct:
  assumes "pos < length heap" "heap_hole (heap[pos := x]) pos"
    "siftup_loop heap pos = (heap', pos')"
  shows "length heap' = length heap \<and> pos' < length heap \<and>
         mset (heap'[pos' := x]) = mset (heap[pos := x]) \<and>
         heap_except (heap'[pos' := x]) pos'"
  using assms
proof (induction heap pos arbitrary: heap' pos' rule: siftup_loop.induct)
  case (1 heap pos)
  let ?B = "heap[pos := x]"
  have h1: "f_cost (?B ! ((i - 1) div 2)) \<le> f_cost (?B ! i)"
    if "0 < i" "i < length heap" "i \<noteq> pos" "(i - 1) div 2 \<noteq> pos" for i
    using "1.prems"(2) that unfolding heap_hole_def length_list_update by blast
  have h2: "f_cost (?B ! ((pos - 1) div 2)) \<le> f_cost (?B ! i)"
    if "0 < i" "i < length heap" "(i - 1) div 2 = pos" "0 < pos" for i
    using "1.prems"(2) that unfolding heap_hole_def length_list_update by blast
  show ?case
  proof (cases "2 * pos + 1 < length heap")
    case False
    with "1.prems"(3) have eq: "heap' = heap" "pos' = pos" by (simp_all add: siftup_loop_stop)
    have "heap_except ?B pos"
      unfolding heap_except_def length_list_update
    proof (intro conjI allI impI)
      fix i assume i: "0 < i \<and> i < length heap \<and> i \<noteq> pos"
      then have "(i - 1) div 2 \<noteq> pos" using False by arith
      with h1 i show "f_cost (?B ! ((i - 1) div 2)) \<le> f_cost (?B ! i)" by blast
    next
      fix i assume i: "0 < i \<and> i < length heap \<and> (i - 1) div 2 = pos \<and> 0 < pos"
      then have False using False by arith
      then show "f_cost (?B ! ((pos - 1) div 2)) \<le> f_cost (?B ! i)" ..
    qed
    with eq "1.prems"(1) show ?thesis by simp
  next
    case True
    let ?c = "smaller_child heap pos"
    let ?h = "heap[pos := heap ! ?c]"
    let ?B' = "?h[?c := x]"
    have c_cases: "?c = 2 * pos + 1 \<or> ?c = 2 * pos + 2" by (simp add: smaller_child_def)
    have clen: "?c < length heap" using True by (auto simp: smaller_child_def)
    have cpos: "pos < ?c" using c_cases by arith
    have cpar: "(?c - 1) div 2 = pos" using c_cases by arith
    have c0: "0 < ?c" using cpos by simp
    have small: "f_cost (heap ! ?c) \<le> f_cost (heap ! i)"
      if i: "i < length heap" "i = 2 * pos + 1 \<or> i = 2 * pos + 2" for i
      using i True by (auto simp: smaller_child_def node_lt_def split: if_splits)
    have rec: "siftup_loop ?h ?c = (heap', pos')"
      using "1.prems"(3) True by (simp add: siftup_loop_rec)
    have Bn: "?B ! i = (if i = pos then x else heap ! i)" if "i < length heap" for i
      using that by (simp add: nth_list_update)
    have B'n: "?B' ! i = (if i = ?c then x else if i = pos then heap ! ?c else heap ! i)"
      if "i < length heap" for i
      using that cpos by (simp add: nth_list_update)
    have hole': "heap_hole ?B' ?c"
      unfolding heap_hole_def length_list_update
    proof (intro conjI allI impI)
      fix i assume i: "0 < i \<and> i < length heap \<and> i \<noteq> ?c \<and> (i - 1) div 2 \<noteq> ?c"
      then have i0: "0 < i" and il: "i < length heap" and inc: "i \<noteq> ?c"
        and pnc: "(i - 1) div 2 \<noteq> ?c" by simp_all
      have pil: "(i - 1) div 2 < length heap" using i0 il by arith
      show "f_cost (?B' ! ((i - 1) div 2)) \<le> f_cost (?B' ! i)"
      proof (cases "i = pos")
        case True
        then have p0: "0 < pos" using i0 by simp
        have ppl: "(pos - 1) div 2 < pos" using p0 by arith
        have ppl2: "(pos - 1) div 2 < length heap" using ppl "1.prems"(1) by simp
        have ppc: "(pos - 1) div 2 \<noteq> ?c" using ppl cpos by simp
        have v1: "?B ! ((pos - 1) div 2) = heap ! ((pos - 1) div 2)" using Bn[OF ppl2] ppl by simp
        have v2: "?B ! ?c = heap ! ?c" using Bn[OF clen] cpos by simp
        have v3: "?B' ! ((pos - 1) div 2) = heap ! ((pos - 1) div 2)"
          using B'n[OF ppl2] ppl ppc by simp
        have v4: "?B' ! pos = heap ! ?c" using B'n[OF "1.prems"(1)] cpos by simp
        from h2[OF c0 clen cpar p0] show ?thesis unfolding True v1 v2 v3 v4 .
      next
        case ipos: False
        have w1: "?B' ! i = heap ! i" using B'n[OF il] inc ipos by simp
        show ?thesis
        proof (cases "(i - 1) div 2 = pos")
          case True
          then have "i = 2 * pos + 1 \<or> i = 2 * pos + 2" using i0 by arith
          from small[OF il this] have le: "f_cost (heap ! ?c) \<le> f_cost (heap ! i)" .
          have w2: "?B' ! pos = heap ! ?c" using B'n[OF "1.prems"(1)] cpos by simp
          from le show ?thesis unfolding True w1 w2 .
        next
          case False
          have w3: "?B' ! ((i - 1) div 2) = heap ! ((i - 1) div 2)"
            using B'n[OF pil] pnc False by simp
          have w4: "?B ! ((i - 1) div 2) = heap ! ((i - 1) div 2)" using Bn[OF pil] False by simp
          have w5: "?B ! i = heap ! i" using Bn[OF il] ipos by simp
          from h1[OF i0 il ipos False] show ?thesis unfolding w1 w3 w4 w5 .
        qed
      qed
    next
      fix i assume i: "0 < i \<and> i < length heap \<and> (i - 1) div 2 = ?c \<and> 0 < ?c"
      then have i0: "0 < i" and il: "i < length heap" and ipar: "(i - 1) div 2 = ?c" by simp_all
      have ci: "?c < i" using ipar i0 by arith
      have inc: "i \<noteq> ?c" using ci by simp
      have inp: "i \<noteq> pos" using ci cpos by simp
      have pnp: "(i - 1) div 2 \<noteq> pos" using ipar cpos by simp
      have u1: "?B ! i = heap ! i" using Bn[OF il] inp by simp
      have u2: "?B ! ?c = heap ! ?c" using Bn[OF clen] cpos by simp
      have u3: "?B' ! i = heap ! i" using B'n[OF il] inc inp by simp
      have u4: "?B' ! pos = heap ! ?c" using B'n[OF "1.prems"(1)] cpos by simp
      from h1[OF i0 il inp pnp] have "f_cost (heap ! ?c) \<le> f_cost (heap ! i)"
        unfolding ipar u1 u2 .
      then show "f_cost (?B' ! ((?c - 1) div 2)) \<le> f_cost (?B' ! i)"
        unfolding cpar u3 u4 .
    qed
    have clen': "?c < length ?h" using clen by simp
    have sc: "?c = (if 2 * pos + 1 + 1 < length heap \<and>
                       \<not> node_lt (heap ! (2 * pos + 1)) (heap ! (2 * pos + 1 + 1))
                    then 2 * pos + 1 + 1 else 2 * pos + 1)"
      by (simp add: smaller_child_def)
    note ih = "1.IH"[OF refl refl True refl sc clen' hole' rec]
    have "mset ?B' = mset ?B"
      using mset_swap_update[OF "1.prems"(1) clen, of x] cpos by simp
    with ih show ?thesis by simp
  qed
qed

subsection \<open>Popping the smallest entry\<close>

lemma siftup_correct:
  assumes ne: "heap \<noteq> []" and hole: "heap_hole heap 0"
  shows "heap_inv (siftup heap 0)" and "mset (siftup heap 0) = mset heap"
proof -
  obtain heap1 leafpos where sl: "siftup_loop heap 0 = (heap1, leafpos)"
    by (cases "siftup_loop heap 0")
  have l0: "0 < length heap" using ne by simp
  have same: "heap[0 := heap ! 0] = heap" by simp
  from siftup_loop_correct[OF l0 _ sl, of "heap ! 0"] hole same
  have len: "length heap1 = length heap" and lp: "leafpos < length heap"
    and ms: "mset (heap1[leafpos := heap ! 0]) = mset heap"
    and exc: "heap_except (heap1[leafpos := heap ! 0]) leafpos"
    by simp_all
  let ?B = "heap1[leafpos := heap ! 0]"
  have eq: "siftup heap 0 = siftdown_loop ?B 0 leafpos (heap ! 0)"
    using lp len by (simp add: siftup_def sl siftdown_def Let_def)
  have lp': "leafpos < length ?B" using lp len by simp
  have upd: "?B[leafpos := heap ! 0] = ?B" by simp
  from siftdown_loop_correct[OF lp', of "heap ! 0"] exc upd eq ms
  show "heap_inv (siftup heap 0)" and "mset (siftup heap 0) = mset heap"
    by simp_all
qed

lemma heap_inv_min:
  assumes "heap_inv heap" "i < length heap"
  shows "f_cost (heap ! 0) \<le> f_cost (heap ! i)"
  using assms(2)
proof (induction i rule: less_induct)
  case (less i)
  show ?case
  proof (cases "i = 0")
    case True
    then show ?thesis by simp
  next
    case False
    then have p: "(i - 1) div 2 < i" by arith
    then have pl: "(i - 1) div 2 < length heap" using less.prems by simp
    from assms(1) False less.prems have "f_cost (heap ! ((i - 1) div 2)) \<le> f_cost (heap ! i)"
      unfolding heap_inv_def by simp
    with less.IH[OF p pl] show ?thesis by simp
  qed
qed

lemma heappop_correct:
  assumes inv: "heap_inv heap" and ne: "heap \<noteq> []"
  shows "\<exists>x rest. heappop heap = Some (x, rest) \<and> mset heap = add_mset x (mset rest) \<and>
           heap_inv rest \<and> (\<forall>y \<in> set heap. f_cost x \<le> f_cost y)"
proof -
  have minall: "\<forall>y \<in> set heap. f_cost (heap ! 0) \<le> f_cost y"
    using heap_inv_min[OF inv] by (auto simp: in_set_conv_nth)
  show ?thesis
  proof (cases "butlast heap = []")
    case True
    then obtain a where a: "heap = [a]" using ne by (cases heap) (auto split: if_splits)
    have "heap_inv []" by (simp add: heap_inv_def)
    then show ?thesis using a by (simp add: heappop_def)
  next
    case False
    let ?h1 = "butlast heap"
    let ?l = "last heap"
    let ?h2 = "?h1[0 := ?l]"
    have pop: "heappop heap = Some (?h1 ! 0, siftup ?h2 0)"
      using ne False by (simp add: heappop_def Let_def)
    from False have "0 < length ?h1" by blast
    then have h10: "?h1 ! 0 = heap ! 0" by (rule nth_butlast)
    have ne2: "?h2 \<noteq> []" using False by simp
    have hole: "heap_hole ?h2 0"
      unfolding heap_hole_def length_list_update
    proof (intro conjI allI impI)
      fix i assume i: "0 < i \<and> i < length ?h1 \<and> i \<noteq> 0 \<and> (i - 1) div 2 \<noteq> 0"
      then have i0: "0 < i" and il1: "i < length ?h1" and pn0: "(i - 1) div 2 \<noteq> 0"
        by blast+
      have il: "i < length heap" using il1 by simp
      have pl: "(i - 1) div 2 < length ?h1" using i0 il1 by arith
      have a1: "?h2 ! i = heap ! i" using i0 il1 by (simp add: nth_butlast)
      have a2: "?h2 ! ((i - 1) div 2) = heap ! ((i - 1) div 2)"
        using pn0 pl by (simp add: nth_butlast)
      from inv i0 il have "f_cost (heap ! ((i - 1) div 2)) \<le> f_cost (heap ! i)"
        unfolding heap_inv_def by simp
      then show "f_cost (?h2 ! ((i - 1) div 2)) \<le> f_cost (?h2 ! i)" unfolding a1 a2 .
    next
      fix i assume "0 < i \<and> i < length ?h1 \<and> (i - 1) div 2 = 0 \<and> (0::nat) < 0"
      then show "f_cost (?h2 ! ((0 - 1) div 2)) \<le> f_cost (?h2 ! i)" by simp
    qed
    from siftup_correct[OF ne2 hole]
    have inv': "heap_inv (siftup ?h2 0)" and ms: "mset (siftup ?h2 0) = mset ?h2" .
    obtain a as where h1: "?h1 = a # as" using False by (cases ?h1) auto
    have "heap = ?h1 @ [?l]" using ne by simp
    then have "mset heap = add_mset ?l (mset ?h1)" by (metis mset_append add_mset_add_single mset.simps union_commute union_mset_add_mset_right add.right_neutral)
    also have "\<dots> = add_mset (?h1 ! 0) (mset ?h2)" using h1 by simp
    finally have "mset heap = add_mset (?h1 ! 0) (mset (siftup ?h2 0))" using ms by simp
    with pop inv' minall h10 show ?thesis by simp
  qed
qed

lemma heappop_facts:
  assumes "heap_inv heap" "heappop heap = Some (cur, rest)"
  shows "mset heap = add_mset cur (mset rest)" "heap_inv rest" "\<forall>y \<in> set heap. f_cost cur \<le> f_cost y"
    "set heap = insert cur (set rest)" "length heap = Suc (length rest)"
proof -
  have ne: "heap \<noteq> []" using assms(2) by (auto simp: heappop_def)
  from heappop_correct[OF assms(1) ne] assms(2)
  show ms: "mset heap = add_mset cur (mset rest)" and "heap_inv rest"
    and "\<forall>y \<in> set heap. f_cost cur \<le> f_cost y" by auto
  from ms show "set heap = insert cur (set rest)"
    by (metis set_mset_mset set_mset_add_mset_insert)
  from ms show "length heap = Suc (length rest)"
    by (metis size_mset size_add_mset)
qed

section \<open>Properties of the search loop\<close>

lemma heappop_single: "heappop [n] = Some (n, [])"
  by (simp add: heappop_def)

lemma heappop_Nil: "heappop [] = None"
  by (simp add: heappop_def)

lemma heappop_None: "(heappop heap = None) = (heap = [])"
  by (simp add: heappop_def Let_def)

lemma solve_loop_reaches:
  "loop_reaches h goal c c' \<Longrightarrow> solve_loop h goal c = solve_loop h goal c'"
proof (induction rule: loop_reaches.induct)
  case (loop_refl c)
  then show ?case by simp
next
  case (loop_step c c1 c2)
  have "solve_loop h goal c1 = solve_loop h goal c2"
    using loop_step.hyps(2) by (subst solve_loop.simps) simp
  with loop_step.IH show ?case by simp
qed

lemma solve_loop_empty:
  assumes "open_set c = []"
  shows "solve_loop h goal c = Some (Inr (None, 0, states_evaluated c), c)"
  by (subst solve_loop.simps) (simp add: solve_step_def assms heappop_Nil)

lemma solve_step_cases:
  obtains (empty) "open_set c = []"
      "solve_step h goal c = Inr (Inr (None, 0, states_evaluated c), c)"
  | (stale) cur rest where "heappop (open_set c) = Some (cur, rest)"
      "state_to_tuple (state cur) \<in> closed_set c"
      "solve_step h goal c = Inl (c\<lparr>open_set := rest\<rparr>)"
  | (found) cur rest where "heappop (open_set c) = Some (cur, rest)"
      "state_to_tuple (state cur) \<notin> closed_set c" "state cur = goal"
      "solve_step h goal c =
         Inr (Inr (Some (reconstruct_path cur), int (length (reconstruct_path cur)) - 1,
                   states_evaluated c + 1),
              c\<lparr>open_set := rest, states_evaluated := states_evaluated c + 1\<rparr>)"
  | (no_actions) cur rest e c' where "heappop (open_set c) = Some (cur, rest)"
      "state_to_tuple (state cur) \<notin> closed_set c" "state cur \<noteq> goal"
      "available_actions (state cur) = Inl e" "solve_step h goal c = Inr (Inl e, c')"
  | (raised) cur rest acts e c' where "heappop (open_set c) = Some (cur, rest)"
      "state_to_tuple (state cur) \<notin> closed_set c" "state cur \<noteq> goal"
      "available_actions (state cur) = Inr acts"
      "expand h goal cur (insert (state_to_tuple (state cur)) (closed_set c)) acts
         (rest, g_scores c) = Inl e"
      "solve_step h goal c = Inr (Inl e, c')"
  | (expanded) cur rest acts opn gs where "heappop (open_set c) = Some (cur, rest)"
      "state_to_tuple (state cur) \<notin> closed_set c" "state cur \<noteq> goal"
      "available_actions (state cur) = Inr acts"
      "expand h goal cur (insert (state_to_tuple (state cur)) (closed_set c)) acts
         (rest, g_scores c) = Inr (opn, gs)"
      "solve_step h goal c =
         Inl \<lparr>open_set = opn, g_scores = gs,
              closed_set = insert (state_to_tuple (state cur)) (closed_set c),
              states_evaluated = states_evaluated c + 1\<rparr>"
proof (cases "heappop (open_set c)")
  case None
  then have "open_set c = []" by (simp add: heappop_None)
  moreover have "solve_step h goal c = Inr (Inr (None, 0, states_evaluated c), c)"
    using None by (simp add: solve_step_def)
  ultimately show ?thesis by (rule empty)
next
  case (Some p)
  obtain cur rest where p: "p = (cur, rest)" by (cases p)
  note pop = Some[unfolded p]
  show ?thesis
  proof (cases "state_to_tuple (state cur) \<in> closed_set c")
    case True
    then show ?thesis using pop by (intro stale[of cur rest]) (simp_all add: solve_step_def)
  next
    case fresh: False
    show ?thesis
    proof (cases "state cur = goal")
      case True
      then show ?thesis using pop fresh
        by (intro found[of cur rest]) (simp_all add: solve_step_def Let_def)
    next
      case ng: False
      show ?thesis
      proof (cases "available_actions (state cur)")
        case (Inl e)
        then show ?thesis using pop fresh ng
          by (intro no_actions[of cur rest e]) (simp_all add: solve_step_def Let_def)
      next
        case (Inr acts)
        show ?thesis
        proof (cases "expand h goal cur (insert (state_to_tuple (state cur)) (closed_set c)) acts
                 (rest, g_scores c)")
          case (Inl e)
          then show ?thesis using pop fresh ng Inr
            by (intro raised[of cur rest acts e]) (simp_all add: solve_step_def Let_def)
        next
          case r: (Inr q)
          obtain opn gs where q: "q = (opn, gs)" by (cases q)
          show ?thesis using pop fresh ng Inr r q
            by (intro expanded[of cur rest acts opn gs]) (simp_all add: solve_step_def Let_def)
        qed
      qed
    qed
  qed
qed

lemma loop_reaches_first:
  "loop_reaches h goal c1 c2 \<Longrightarrow> solve_step h goal c = Inl c1 \<Longrightarrow> loop_reaches h goal c c2"
proof (induction rule: loop_reaches.induct)
  case (loop_refl c1)
  then show ?case using loop_reaches.loop_step[OF loop_reaches.loop_refl] by blast
next
  case (loop_step c1 c2 c3)
  then show ?case using loop_reaches.loop_step by blast
qed

lemma solve_loop_Some:
  assumes "solve_loop h goal c = Some y"
  shows "\<exists>c1. loop_reaches h goal c c1 \<and> solve_step h goal c1 = Inr y"
proof (rule solve_loop.raw_induct[where P = "\<lambda>h goal c y.
         \<exists>c1. loop_reaches h goal c c1 \<and> solve_step h goal c1 = Inr y", OF _ assms])
  fix f :: "heuristic \<Rightarrow> grid \<Rightarrow> ctx \<Rightarrow> ((py_error + result) \<times> ctx) option"
  fix h goal c y
  assume IH: "\<And>h goal c y. f h goal c = Some y \<Longrightarrow>
                \<exists>c1. loop_reaches h goal c c1 \<and> solve_step h goal c1 = Inr y"
    and eq: "(case solve_step h goal c of Inl c' \<Rightarrow> f h goal c' | Inr r \<Rightarrow> Some r) = Some y"
  show "\<exists>c1. loop_reaches h goal c c1 \<and> solve_step h goal c1 = Inr y"
  proof (cases "solve_step h goal c")
    case (Inl c2)
    with eq have "f h goal c2 = Some y" by simp
    from IH[OF this] obtain c1 where
      c1: "loop_reaches h goal c2 c1" "solve_step h goal c1 = Inr y" by blast
    from loop_reaches_first[OF c1(1) Inl] c1(2) show ?thesis by blast
  next
    case (Inr x)
    with eq have "x = y" by simp
    with Inr loop_refl[of h goal c] show ?thesis by blast
  qed
qed

text \<open>
  Claim C4. For every goal and every heuristic that returns a value on (goal, goal),
  \<open>solve\<close> started at the goal returns the path whose only entry is the goal with no
  action, the move count 0, and the evaluated count 1.
\<close>

theorem solve_goal_is_start:
  assumes "heuristic_func goal goal = Inr hv"
  shows "solve goal goal heuristic_func = Some (Inr (Some [(goal, None)], 0, 1))"
proof -
  have step: "solve_step heuristic_func goal (init_ctx goal hv) =
      Inr (Inr (Some [(goal, None)], 0, 1),
           (init_ctx goal hv)\<lparr>open_set := [], states_evaluated := 1\<rparr>)"
    by (simp add: solve_step_def init_ctx_def heappop_single reconstruct_path_def)
  have "solve_loop heuristic_func goal (init_ctx goal hv) =
      Some (Inr (Some [(goal, None)], 0, 1),
            (init_ctx goal hv)\<lparr>open_set := [], states_evaluated := 1\<rparr>)"
    by (subst solve_loop.simps) (simp add: step)
  then show ?thesis by (simp add: solve_def solve_run_def assms)
qed

theorem solve_goal_is_start_witness:
  "manhattan_distance [[1, 2], [3, 0]] [[1, 2], [3, 0]] = Inr 0 \<and>
   solve [[1, 2], [3, 0]] [[1, 2], [3, 0]] manhattan_distance =
     Some (Inr (Some [([[1, 2], [3, 0]], None)], 0, 1))"
proof -
  have h: "manhattan_distance [[1, 2], [3, 0]] [[1, 2], [3, 0]] = Inr 0" by code_simp
  from solve_goal_is_start[of manhattan_distance "[[1, 2], [3, 0]]" 0, OF h] h
  show ?thesis by simp
qed

subsection \<open>The arrays compared with the goal\<close>

text \<open>
  When the initial state has shape \<open>(m, n)\<close>, so has the state of every node of the
  frontier, at every loop head: \<open>do_action\<close> keeps the shape. With a goal of the same
  shape, the goal test of every pass compares two arrays of one shape.
\<close>

lemma setitem_shape:
  assumes "has_shape m n s" "setitem s p v = Inr t"
  shows "has_shape m n t"
proof -
  from assms(2) obtain r c where "t = s[r := (s ! r)[c := v]]"
    by (auto simp: setitem_def split: option.splits)
  with has_shape_update[OF assms(1)] show ?thesis by simp
qed

lemma do_action_shape:
  assumes "has_shape m n s" "do_action s a = Inr t"
  shows "has_shape m n t"
proof -
  from assms(2) obtain v2 v1 s1 where s1: "setitem s (pos1 a) v2 = Inr s1"
    and t: "setitem s1 (pos2 a) v1 = Inr t"
    by (auto simp: do_action_def split: sum.splits)
  from setitem_shape[OF setitem_shape[OF assms(1) s1] t] show ?thesis .
qed

lemma expand_shapes:
  assumes cur: "has_shape m n (state cur)"
  shows "heap_inv opn \<Longrightarrow> \<forall>nd \<in> set opn. has_shape m n (state nd) \<Longrightarrow>
         expand h goal cur closed as (opn, gs) = Inr (opn', gs') \<Longrightarrow>
         heap_inv opn' \<and> (\<forall>nd \<in> set opn'. has_shape m n (state nd))"
proof (induction as arbitrary: opn gs)
  case Nil
  then show ?case by simp
next
  case (Cons a as)
  from Cons.prems(3) obtain t where t: "do_action (state cur) a = Inr t"
    by (cases "do_action (state cur) a") auto
  have sht: "has_shape m n t" using do_action_shape[OF cur t] .
  let ?kt = "state_to_tuple t"
  let ?skip = "?kt \<in> closed \<or> (case gs ?kt of None \<Rightarrow> False | Some g \<Rightarrow> g_cost cur + 1 \<ge> g)"
  show ?case
  proof (cases ?skip)
    case True
    then have "expand h goal cur closed (a # as) (opn, gs) = expand h goal cur closed as (opn, gs)"
      using t by (auto simp: Let_def)
    with Cons.prems(3) have "expand h goal cur closed as (opn, gs) = Inr (opn', gs')" by simp
    from Cons.IH[OF Cons.prems(1) Cons.prems(2) this] show ?thesis .
  next
    case False
    then have nc: "?kt \<notin> closed"
      and better: "\<not> (case gs ?kt of None \<Rightarrow> False | Some g \<Rightarrow> g_cost cur + 1 \<ge> g)"
      by simp_all
    from Cons.prems(3) nc better t obtain hv where hv: "h t goal = Inr hv"
      by (cases "h t goal") (auto simp: Let_def)
    let ?nd = "Node t (Some cur) (Some a) (g_cost cur + 1) hv"
    have eq: "expand h goal cur closed (a # as) (opn, gs) =
        expand h goal cur closed as (heappush opn ?nd, gs(?kt \<mapsto> g_cost cur + 1))"
      using nc better t hv by (simp add: Let_def)
    from heappush_correct[OF Cons.prems(1), of ?nd]
    have hp: "heap_inv (heappush opn ?nd)"
      and ms: "mset (heappush opn ?nd) = add_mset ?nd (mset opn)" by simp_all
    from ms have "set (heappush opn ?nd) = insert ?nd (set opn)"
      by (metis set_mset_mset set_mset_add_mset_insert)
    with Cons.prems(2) sht have all: "\<forall>nd \<in> set (heappush opn ?nd). has_shape m n (state nd)"
      by simp
    from eq Cons.prems(3)
    have "expand h goal cur closed as (heappush opn ?nd, gs(?kt \<mapsto> g_cost cur + 1)) =
        Inr (opn', gs')" by simp
    from Cons.IH[OF hp all this] show ?thesis .
  qed
qed

lemma shapes_ok_init: "has_shape m n initial_state \<Longrightarrow> shapes_ok m n (init_ctx initial_state hv)"
  by (simp add: shapes_ok_def init_ctx_def heap_inv_def)

lemma shapes_ok_step:
  assumes ok: "shapes_ok m n c" and step: "solve_step h goal c = Inl c'"
  shows "shapes_ok m n c'"
proof (cases rule: solve_step_cases[of c h goal])
  case empty
  with step show ?thesis by simp
next
  case (stale cur rest)
  from ok have hp: "heap_inv (open_set c)" unfolding shapes_ok_def by blast
  from heappop_facts(2,4)[OF hp stale(1)] ok stale(3) step show ?thesis
    unfolding shapes_ok_def by auto
next
  case (found cur rest)
  with step show ?thesis by simp
next
  case (no_actions cur rest e c'')
  with step show ?thesis by simp
next
  case (raised cur rest acts e c'')
  with step show ?thesis by simp
next
  case (expanded cur rest acts opn gs)
  from ok have hp: "heap_inv (open_set c)" unfolding shapes_ok_def by blast
  note hf = heappop_facts(2,4)[OF hp expanded(1)]
  have cur: "has_shape m n (state cur)" using ok hf(2) unfolding shapes_ok_def by simp
  have rest: "\<forall>nd \<in> set rest. has_shape m n (state nd)"
    using ok hf(2) unfolding shapes_ok_def by simp
  from expand_shapes[OF cur hf(1) rest expanded(5)] expanded(6) step show ?thesis
    unfolding shapes_ok_def by auto
qed

lemma shapes_ok_reaches:
  "loop_reaches h goal c c' \<Longrightarrow> shapes_ok m n c \<Longrightarrow> shapes_ok m n c'"
  by (induction rule: loop_reaches.induct) (auto intro: shapes_ok_step)

lemma goal_test_same_shape:
  assumes "has_shape m n initial_state"
    and "loop_reaches h goal (init_ctx initial_state hv) c"
    and "heappop (open_set c) = Some (current, rest)"
  shows "has_shape m n (state current)"
proof -
  from shapes_ok_reaches[OF assms(2) shapes_ok_init[OF assms(1)]]
  have ok: "shapes_ok m n c" .
  then have hp: "heap_inv (open_set c)" unfolding shapes_ok_def by blast
  from heappop_facts(4)[OF hp assms(3)] ok show ?thesis unfolding shapes_ok_def by simp
qed

subsection \<open>Leaving the loop with an empty frontier\<close>

text \<open>
  Claim C6, for a run whose initial state and goal are arrays of one shape. Whenever
  the loop head is reached with an empty frontier, the loop is left with the triple
  (no path, 0, the counter) as a value, and that is what \<open>solve\<close> returns.
\<close>

theorem solve_exhaustion:
  assumes sh: "has_shape m n initial_state" and shg: "has_shape m n goal"
    and hv: "heuristic_func initial_state goal = Inr hv"
    and reach: "loop_reaches heuristic_func goal (init_ctx initial_state hv) c"
    and empty: "open_set c = []"
  shows "solve_step heuristic_func goal c = Inr (Inr (None, 0, states_evaluated c), c) \<and>
         solve initial_state goal heuristic_func = Some (Inr (None, 0, states_evaluated c))"
proof -
  have "solve_step heuristic_func goal c = Inr (Inr (None, 0, states_evaluated c), c)"
    by (simp add: solve_step_def empty heappop_Nil)
  moreover have "solve_loop heuristic_func goal (init_ctx initial_state hv) =
      Some (Inr (None, 0, states_evaluated c), c)"
    using solve_loop_reaches[OF reach] solve_loop_empty[OF empty] by simp
  ultimately show ?thesis by (simp add: solve_def solve_run_def hv)
qed

subsection \<open>The counter and the closed set\<close>

lemma solve_step_Inl:
  assumes "solve_step h goal c = Inl c'"
  shows "(closed_set c' = closed_set c \<and> states_evaluated c' = states_evaluated c) \<or>
         (\<exists>k. k \<notin> closed_set c \<and> closed_set c' = insert k (closed_set c) \<and>
              states_evaluated c' = states_evaluated c + 1)"
  using assms
  by (auto simp: solve_step_def Let_def split: option.splits if_splits sum.splits prod.splits)

lemma solve_step_Inr:
  assumes "solve_step h goal c = Inr (r, c')"
  shows "(r = Inr (None, 0, states_evaluated c) \<and> c' = c) \<or>
         (\<exists>p. r = Inr (Some p, int (length p) - 1, states_evaluated c + 1) \<and>
              closed_set c' = closed_set c \<and> states_evaluated c' = states_evaluated c + 1) \<or>
         (\<exists>e k. r = Inl e \<and> k \<notin> closed_set c \<and> closed_set c' = insert k (closed_set c) \<and>
              states_evaluated c' = states_evaluated c + 1)"
  using assms
  by (auto simp: solve_step_def Let_def split: option.splits if_splits sum.splits prod.splits)

lemma counter_inv_init: "counter_inv (init_ctx s hv)"
  by (simp add: counter_inv_def init_ctx_def)

lemma counter_inv_step:
  assumes "counter_inv c" "solve_step h goal c = Inl c'"
  shows "counter_inv c'"
  using solve_step_Inl[OF assms(2)] assms(1)
  by (auto simp: counter_inv_def)

lemma counter_inv_reaches:
  "loop_reaches h goal c c' \<Longrightarrow> counter_inv c \<Longrightarrow> counter_inv c'"
  by (induction rule: loop_reaches.induct) (auto intro: counter_inv_step)

text \<open>
  Claim C3, as the code has it, for a run whose initial state and goal are arrays of one
  shape. Each time the loop head is reached, the counter equals the number of keys in
  the closed set. One pass never decreases the counter and never removes a key. When
  \<open>solve\<close> returns a path, the returned count is the number of keys in the closed set
  plus one (the goal is counted and not inserted); when it returns no path, the
  returned count is the number of keys in the closed set.
\<close>

theorem states_evaluated_counts_closed:
  assumes sh: "has_shape m n initial_state" and shg: "has_shape m n goal"
    and reach: "loop_reaches h goal (init_ctx initial_state hv) c"
  shows "states_evaluated c = int (card (closed_set c)) \<and>
     (\<forall>c'. solve_step h goal c = Inl c' \<longrightarrow>
        states_evaluated c \<le> states_evaluated c' \<and> closed_set c \<subseteq> closed_set c' \<and>
        states_evaluated c' = int (card (closed_set c'))) \<and>
     (\<forall>p m e c'. solve_step h goal c = Inr (Inr (Some p, m, e), c') \<longrightarrow>
        e = states_evaluated c' \<and> states_evaluated c \<le> e \<and> closed_set c' = closed_set c \<and>
        e = int (card (closed_set c')) + 1) \<and>
     (\<forall>m e c'. solve_step h goal c = Inr (Inr (None, m, e), c') \<longrightarrow>
        e = states_evaluated c' \<and> states_evaluated c \<le> e \<and> closed_set c' = closed_set c \<and>
        e = int (card (closed_set c'))) \<and>
     (\<forall>err c'. solve_step h goal c = Inr (Inl err, c') \<longrightarrow>
        states_evaluated c \<le> states_evaluated c' \<and> closed_set c \<subseteq> closed_set c' \<and>
        states_evaluated c' = int (card (closed_set c')))"
proof -
  have inv: "counter_inv c" using counter_inv_reaches[OF reach counter_inv_init] .
  then have fin: "finite (closed_set c)" and eq: "states_evaluated c = int (card (closed_set c))"
    by (simp_all add: counter_inv_def)
  have a: "states_evaluated c \<le> states_evaluated c' \<and> closed_set c \<subseteq> closed_set c' \<and>
        states_evaluated c' = int (card (closed_set c'))" if "solve_step h goal c = Inl c'" for c'
    using solve_step_Inl[OF that] fin eq by auto
  have b: "e = states_evaluated c' \<and> states_evaluated c \<le> e \<and> closed_set c' = closed_set c \<and>
        e = int (card (closed_set c')) + 1"
    if "solve_step h goal c = Inr (Inr (Some p, m, e), c')" for p m e c'
    using solve_step_Inr[OF that] fin eq by auto
  have d: "e = states_evaluated c' \<and> states_evaluated c \<le> e \<and> closed_set c' = closed_set c \<and>
        e = int (card (closed_set c'))"
    if "solve_step h goal c = Inr (Inr (None, m, e), c')" for m e c'
    using solve_step_Inr[OF that] fin eq by auto
  have f: "states_evaluated c \<le> states_evaluated c' \<and> closed_set c \<subseteq> closed_set c' \<and>
        states_evaluated c' = int (card (closed_set c'))"
    if "solve_step h goal c = Inr (Inl err, c')" for err c'
    using solve_step_Inr[OF that] fin eq by auto
  show ?thesis using eq a b d f by blast
qed

subsection \<open>A run that exhausts the frontier\<close>

text \<open>
  The 2 x 2 state \<open>[[2, 1], [3, 0]]\<close> cannot be brought to the goal
  \<open>[[1, 2], [3, 0]]\<close>: the run closes the twelve states it can reach and ends with an
  empty frontier.
\<close>

lemma manhattan_swapped: "manhattan_distance [[2, 1], [3, 0]] [[1, 2], [3, 0]] = Inr 2"
  by code_simp

lemma solve_swapped:
  "solve [[2, 1], [3, 0]] [[1, 2], [3, 0]] manhattan_distance = Some (Inr (None, 0, 12))"
  by code_simp

lemma swapped_run:
  "\<exists>c. loop_reaches manhattan_distance [[1, 2], [3, 0]] (init_ctx [[2, 1], [3, 0]] 2) c \<and>
        open_set c = [] \<and> states_evaluated c = 12"
proof -
  from solve_swapped obtain c' where
    "solve_run [[2, 1], [3, 0]] [[1, 2], [3, 0]] manhattan_distance = Some (Inr (None, 0, 12), c')"
    by (auto simp: solve_def)
  then have "solve_loop manhattan_distance [[1, 2], [3, 0]] (init_ctx [[2, 1], [3, 0]] 2) =
      Some (Inr (None, 0, 12), c')"
    by (simp add: solve_run_def manhattan_swapped)
  from solve_loop_Some[OF this] obtain c1 where
    r: "loop_reaches manhattan_distance [[1, 2], [3, 0]] (init_ctx [[2, 1], [3, 0]] 2) c1"
    and s: "solve_step manhattan_distance [[1, 2], [3, 0]] c1 = Inr (Inr (None, 0, 12), c')"
    by blast
  have "open_set c1 = [] \<and> states_evaluated c1 = 12"
  proof (cases rule: solve_step_cases[of c1 manhattan_distance "[[1, 2], [3, 0]]"])
    case empty
    with s show ?thesis by auto
  next
    case (stale cur rest)
    with s show ?thesis by simp
  next
    case (found cur rest)
    with s show ?thesis by simp
  next
    case (no_actions cur rest e c'')
    with s show ?thesis by simp
  next
    case (raised cur rest acts e c'')
    with s show ?thesis by simp
  next
    case (expanded cur rest acts opn gs)
    with s show ?thesis by simp
  qed
  with r show ?thesis by blast
qed

theorem solve_exhaustion_witness:
  "has_shape 2 2 [[2, 1], [3, 0]] \<and> has_shape 2 2 [[1, 2], [3, 0]] \<and>
   manhattan_distance [[2, 1], [3, 0]] [[1, 2], [3, 0]] = Inr 2 \<and>
   (\<exists>c. loop_reaches manhattan_distance [[1, 2], [3, 0]] (init_ctx [[2, 1], [3, 0]] 2) c \<and>
        open_set c = [] \<and> states_evaluated c = 12 \<and>
        solve_step manhattan_distance [[1, 2], [3, 0]] c = Inr (Inr (None, 0, 12), c)) \<and>
   solve [[2, 1], [3, 0]] [[1, 2], [3, 0]] manhattan_distance = Some (Inr (None, 0, 12))"
proof -
  have sh: "has_shape 2 2 [[2, 1], [3, 0]]" and shg: "has_shape 2 2 [[1, 2], [3, 0]]"
    by (simp_all add: has_shape_def)
  from swapped_run obtain c where
    r: "loop_reaches manhattan_distance [[1, 2], [3, 0]] (init_ctx [[2, 1], [3, 0]] 2) c"
    and e: "open_set c = []" and n: "states_evaluated c = 12" by blast
  from solve_exhaustion[OF sh shg manhattan_swapped r e] n
  have "solve_step manhattan_distance [[1, 2], [3, 0]] c = Inr (Inr (None, 0, 12), c)"
    and "solve [[2, 1], [3, 0]] [[1, 2], [3, 0]] manhattan_distance = Some (Inr (None, 0, 12))"
    by simp_all
  with sh shg manhattan_swapped r e n show ?thesis by blast
qed

theorem states_evaluated_counts_closed_witness:
  "has_shape 2 2 [[2, 1], [3, 0]] \<and> has_shape 2 2 [[1, 2], [3, 0]] \<and>
   (\<exists>c. loop_reaches manhattan_distance [[1, 2], [3, 0]] (init_ctx [[2, 1], [3, 0]] 2) c \<and>
        states_evaluated c = 12 \<and> int (card (closed_set c)) = 12)"
proof -
  have sh: "has_shape 2 2 [[2, 1], [3, 0]]" and shg: "has_shape 2 2 [[1, 2], [3, 0]]"
    by (simp_all add: has_shape_def)
  from swapped_run obtain c where
    r: "loop_reaches manhattan_distance [[1, 2], [3, 0]] (init_ctx [[2, 1], [3, 0]] 2) c"
    and n: "states_evaluated c = 12" by blast
  from states_evaluated_counts_closed[OF sh shg r] n
  have "int (card (closed_set c)) = 12" by simp
  with sh shg r n show ?thesis by blast
qed

text \<open>
  Claim C3 as stated fails: started at the goal, \<open>solve\<close> returns the evaluated count
  1 while the closed set is empty.
\<close>

theorem states_evaluated_exceeds_closed_counterexample:
  "solve_run [[1, 2], [3, 0]] [[1, 2], [3, 0]] manhattan_distance =
     Some (Inr (Some [([[1, 2], [3, 0]], None)], 0, 1),
           \<lparr>open_set = [], g_scores = [[1, 2, 3, 0] \<mapsto> 0], closed_set = {},
            states_evaluated = 1\<rparr>) \<and>
   \<not> (1 \<le> int (card ({} :: key set)))"
proof -
  have h: "manhattan_distance [[1, 2], [3, 0]] [[1, 2], [3, 0]] = Inr 0" by code_simp
  have step: "solve_step manhattan_distance [[1, 2], [3, 0]] (init_ctx [[1, 2], [3, 0]] 0) =
      Inr (Inr (Some [([[1, 2], [3, 0]], None)], 0, 1),
           \<lparr>open_set = [], g_scores = [[1, 2, 3, 0] \<mapsto> 0], closed_set = {},
            states_evaluated = 1\<rparr>)"
    by (simp add: solve_step_def init_ctx_def heappop_single reconstruct_path_def
        state_to_tuple_def)
  have "solve_loop manhattan_distance [[1, 2], [3, 0]] (init_ctx [[1, 2], [3, 0]] 0) =
      Some (Inr (Some [([[1, 2], [3, 0]], None)], 0, 1),
           \<lparr>open_set = [], g_scores = [[1, 2, 3, 0] \<mapsto> 0], closed_set = {},
            states_evaluated = 1\<rparr>)"
    by (subst solve_loop.simps) (simp add: step)
  then show ?thesis by (simp add: solve_run_def h)
qed

section \<open>Optimality of the search\<close>

subsection \<open>Keys, shapes and reachable states\<close>

lemma state_to_tuple_inj:
  assumes "has_shape m n s" "has_shape m n t" "state_to_tuple s = state_to_tuple t"
  shows "s = t"
proof (rule concat_injective)
  show "concat s = concat t" using assms(3) by (simp add: state_to_tuple_def)
  show "length s = length t" using assms by (simp add: has_shape_def)
  show "\<forall>(x, y) \<in> set (zip s t). length x = length y"
  proof (clarify)
    fix x y assume "(x, y) \<in> set (zip s t)"
    then have "x \<in> set s" "y \<in> set t" by (auto dest: set_zip_leftD set_zip_rightD)
    then show "length x = length y" using assms by (auto simp: has_shape_def list_all_iff)
  qed
qed

lemma cells_set:
  assumes sh: "has_shape m n s"
  shows "set (concat s) = {v. \<exists>c. in_grid m n c \<and> getitem s c = Inr v}"
proof (intro set_eqI iffI)
  fix v assume "v \<in> set (concat s)"
  then obtain r where r: "r \<in> set s" "v \<in> set r" by auto
  then obtain i where i: "i < length s" "s ! i = r" by (auto simp: in_set_conv_nth)
  from r(2) obtain j where j: "j < length r" "r ! j = v" by (auto simp: in_set_conv_nth)
  have im: "i < m" using i sh by (simp add: has_shape_def)
  have jn: "j < n" using j i has_shape_row[OF sh im] by simp
  have g: "in_grid m n (int i, int j)" using im jn by (simp add: in_grid_def)
  from getitem_in[OF sh g] i j have "getitem s (int i, int j) = Inr v" by simp
  with g show "v \<in> {v. \<exists>c. in_grid m n c \<and> getitem s c = Inr v}" by blast
next
  fix v assume "v \<in> {v. \<exists>c. in_grid m n c \<and> getitem s c = Inr v}"
  then obtain c where c: "in_grid m n c" "getitem s c = Inr v" by blast
  have b: "nat (fst c) < m" "nat (snd c) < n" using c(1) by (auto simp: in_grid_def)
  from getitem_in[OF sh c(1)] c(2) have v: "s ! nat (fst c) ! nat (snd c) = v" by simp
  from concat_nth_shape[OF sh b] v show "v \<in> set (concat s)" by (metis nth_mem)
qed

lemma do_action_cells_set:
  assumes sh: "has_shape m n s" and p: "in_grid m n p" and q: "in_grid m n q"
    and t: "do_action s (Action p q) = Inr t"
  shows "has_shape m n t \<and> set (concat t) = set (concat s)"
proof -
  from do_action_in[OF sh p q] t have sht: "has_shape m n t"
    and ct: "\<And>c. in_grid m n c \<Longrightarrow> getitem t c =
       (if c = q then getitem s p else if c = p then getitem s q else getitem s c)"
    by auto
  have "{v. \<exists>c. in_grid m n c \<and> getitem t c = Inr v} = {v. \<exists>c. in_grid m n c \<and> getitem s c = Inr v}"
  proof (intro set_eqI iffI)
    fix v assume "v \<in> {v. \<exists>c. in_grid m n c \<and> getitem t c = Inr v}"
    then obtain c where c: "in_grid m n c" "getitem t c = Inr v" by blast
    let ?c' = "if c = q then p else if c = p then q else c"
    have "in_grid m n ?c'" using c p q by simp
    moreover have "getitem s ?c' = Inr v" using ct[OF c(1)] c(2) by (simp split: if_splits)
    ultimately show "v \<in> {v. \<exists>c. in_grid m n c \<and> getitem s c = Inr v}" by blast
  next
    fix v assume "v \<in> {v. \<exists>c. in_grid m n c \<and> getitem s c = Inr v}"
    then obtain c where c: "in_grid m n c" "getitem s c = Inr v" by blast
    let ?c' = "if c = p then q else if c = q then p else c"
    have g: "in_grid m n ?c'" using c p q by simp
    have "getitem t ?c' = Inr v" using ct[OF g] c(2) by (auto split: if_splits)
    with g show "v \<in> {v. \<exists>c. in_grid m n c \<and> getitem t c = Inr v}" by blast
  qed
  then show ?thesis using sht cells_set[OF sh] cells_set[OF sht] by simp
qed

lemma successors_shape:
  assumes sh: "has_shape n n s" and t: "t \<in> set (successors s)"
  shows "has_shape n n t \<and> set (concat t) = set (concat s)"
proof -
  from t obtain acts a where acts: "available_actions s = Inr acts" and a: "a \<in> set acts"
    and d: "do_action s a = Inr t"
    by (auto simp: successors_iff)
  from available_action_in_grid[OF sh acts a]
  have p: "in_grid n n (pos1 a)" and q: "in_grid n n (pos2 a)" by auto
  have "do_action s (Action (pos1 a) (pos2 a)) = Inr t" using d by simp
  from do_action_cells_set[OF sh p q this] show ?thesis .
qed

lemma available_actions_succeed:
  assumes sh: "has_shape n n s" and blank: "0 \<in> set (concat s)"
  shows "\<exists>acts. available_actions s = Inr acts \<and> (\<forall>a \<in> set acts. \<exists>t. do_action s a = Inr t)"
proof -
  from available_actions_blank[OF sh blank] obtain x y where w: "where_first s 0 = Some (x, y)"
    by blast
  obtain acts where acts: "available_actions s = Inr acts"
    using available_actions_eq[OF w] by blast
  have "\<exists>t. do_action s a = Inr t" if a: "a \<in> set acts" for a
  proof -
    from available_action_in_grid[OF sh acts a]
    have p: "in_grid n n (pos1 a)" and q: "in_grid n n (pos2 a)" by auto
    from do_action_in[OF sh p q] show ?thesis by auto
  qed
  with acts show ?thesis by blast
qed

lemma reach_in_step:
  "reach_in k s u \<Longrightarrow> t \<in> set (successors u) \<Longrightarrow> reach_in (Suc k) s t"
proof (induction k arbitrary: s)
  case 0
  then show ?case by auto
next
  case (Suc k)
  from Suc.prems(1) obtain v where v: "v \<in> set (successors s)" "reach_in k v u" by auto
  from Suc.IH[OF v(2) Suc.prems(2)] v(1) show ?case by auto
qed

lemma reach_in_shape:
  assumes sh: "has_shape n n s"
  shows "reach_in k s t \<Longrightarrow> has_shape n n t \<and> set (concat t) = set (concat s)"
  using sh
proof (induction k arbitrary: s)
  case 0
  then show ?case by simp
next
  case (Suc k)
  from Suc.prems(1) obtain v where v: "v \<in> set (successors s)" "reach_in k v t" by auto
  from successors_shape[OF Suc.prems(2) v(1)]
  have shv: "has_shape n n v" and sv: "set (concat v) = set (concat s)" by auto
  from Suc.IH[OF v(2) shv] sv show ?case by simp
qed

lemma reachable_shape:
  "has_shape n n init \<Longrightarrow> reachable init s \<Longrightarrow> has_shape n n s \<and> set (concat s) = set (concat init)"
  unfolding reachable_def using reach_in_shape by blast

lemma reachable_key_inj:
  assumes "has_shape n n init" "reachable init s" "reachable init t"
    "state_to_tuple s = state_to_tuple t"
  shows "s = t"
  using state_to_tuple_inj[OF _ _ assms(4)] reachable_shape[OF assms(1)] assms(2,3) by blast

lemma reachable_step: "reachable init s \<Longrightarrow> t \<in> set (successors s) \<Longrightarrow> reachable init t"
  unfolding reachable_def using reach_in_step by blast

subsection \<open>The loop over the actions keeps the invariant\<close>

lemma push_ok:
  assumes sh: "has_shape n n init"
    and cur: "node_ok init goal h cur"
    and t: "t \<in> set (successors (state cur))"
    and hv: "h t goal = Inr hv"
    and ok: "open_ok init goal h opn gs"
    and sc: "scores_ok init opn gs closed"
    and better: "\<not> (case gs (state_to_tuple t) of None \<Rightarrow> False | Some g \<Rightarrow> g_cost cur + 1 \<ge> g)"
  shows "open_ok init goal h (heappush opn (Node t (Some cur) (Some a) (g_cost cur + 1) hv))
           (gs(state_to_tuple t \<mapsto> g_cost cur + 1)) \<and>
         scores_ok init (heappush opn (Node t (Some cur) (Some a) (g_cost cur + 1) hv))
           (gs(state_to_tuple t \<mapsto> g_cost cur + 1)) closed"
proof -
  let ?nd = "Node t (Some cur) (Some a) (g_cost cur + 1) hv"
  let ?gs = "gs(state_to_tuple t \<mapsto> g_cost cur + 1)"
  from cur obtain k where k: "g_cost cur = int k" "depth cur = k" "reach_in k init (state cur)"
    unfolding node_ok_def by blast
  have rt: "reach_in (Suc k) init t" using reach_in_step[OF k(3) t] .
  have reach_t: "reachable init t" unfolding reachable_def using rt by blast
  have nd_ok: "node_ok init goal h ?nd"
    unfolding node_ok_def using k rt hv by (intro exI[of _ "Suc k"]) simp
  from ok have hp: "heap_inv opn" unfolding open_ok_def by blast
  from heappush_correct[OF hp, of ?nd]
  have hp': "heap_inv (heappush opn ?nd)" and ms: "mset (heappush opn ?nd) = add_mset ?nd (mset opn)"
    by simp_all
  from ms have st: "set (heappush opn ?nd) = insert ?nd (set opn)"
    by (metis set_mset_mset set_mset_add_mset_insert)
  have old: "\<exists>g. ?gs (state_to_tuple (state nd)) = Some g \<and> g \<le> g_cost nd"
    if nd: "nd \<in> set opn" for nd
  proof -
    from ok nd obtain g where g: "gs (state_to_tuple (state nd)) = Some g" "g \<le> g_cost nd"
      unfolding open_ok_def by blast
    show ?thesis
    proof (cases "state_to_tuple (state nd) = state_to_tuple t")
      case True
      with g better have "g_cost cur + 1 < g" by simp
      with g True show ?thesis by simp
    next
      case False
      with g show ?thesis by simp
    qed
  qed
  have "open_ok init goal h (heappush opn ?nd) ?gs"
    unfolding open_ok_def st
  proof (intro conjI ballI)
    show "heap_inv (heappush opn ?nd)" by (rule hp')
  next
    fix nd assume "nd \<in> insert ?nd (set opn)"
    then show "node_ok init goal h nd" using nd_ok ok unfolding open_ok_def by blast
  next
    fix nd assume "nd \<in> insert ?nd (set opn)"
    then consider "nd = ?nd" | "nd \<in> set opn" by blast
    then show "\<exists>g. ?gs (state_to_tuple (state nd)) = Some g \<and> g \<le> g_cost nd"
    proof cases
      case 1
      then show ?thesis by simp
    next
      case 2
      then show ?thesis by (rule old)
    qed
  qed
  moreover have "scores_ok init (heappush opn ?nd) ?gs closed"
    unfolding scores_ok_def st
  proof (intro allI impI)
    fix s g
    assume a: "reachable init s \<and> ?gs (state_to_tuple s) = Some g \<and> state_to_tuple s \<notin> closed"
    show "\<exists>nd \<in> insert ?nd (set opn). state nd = s \<and> g_cost nd = g"
    proof (cases "state_to_tuple s = state_to_tuple t")
      case True
      with a have "s = t" using reachable_key_inj[OF sh _ reach_t] by blast
      moreover have "g = g_cost cur + 1" using a True by simp
      ultimately show ?thesis by simp
    next
      case False
      with a have "reachable init s \<and> gs (state_to_tuple s) = Some g \<and> state_to_tuple s \<notin> closed"
        by simp
      with sc show ?thesis unfolding scores_ok_def by blast
    qed
  qed
  ultimately show ?thesis by blast
qed

lemma expand_correct:
  assumes sh: "has_shape n n init"
    and hr: "heuristic_returns init goal h"
    and cur: "node_ok init goal h cur"
  shows "(\<forall>a \<in> set as. \<exists>t. do_action (state cur) a = Inr t \<and> t \<in> set (successors (state cur))) \<Longrightarrow>
         open_ok init goal h opn gs \<Longrightarrow> scores_ok init opn gs closed \<Longrightarrow>
         \<exists>opn' gs'. expand h goal cur closed as (opn, gs) = Inr (opn', gs') \<and>
           open_ok init goal h opn' gs' \<and> scores_ok init opn' gs' closed \<and>
           (\<forall>k \<in> closed. gs' k = gs k) \<and>
           (\<forall>k g. gs k = Some g \<longrightarrow> (\<exists>g'. gs' k = Some g' \<and> g' \<le> g)) \<and>
           (\<forall>a \<in> set as. \<forall>t. do_action (state cur) a = Inr t \<longrightarrow>
              state_to_tuple t \<in> closed \<or>
              (\<exists>g'. gs' (state_to_tuple t) = Some g' \<and> g' \<le> g_cost cur + 1))"
proof (induction as arbitrary: opn gs)
  case Nil
  then show ?case by simp
next
  case (Cons a as)
  from Cons.prems(1) obtain t where t: "do_action (state cur) a = Inr t"
    and ts: "t \<in> set (successors (state cur))" by auto
  from Cons.prems(1) have rest: "\<forall>a \<in> set as. \<exists>t. do_action (state cur) a = Inr t \<and>
      t \<in> set (successors (state cur))" by simp
  from cur have rc: "reachable init (state cur)" unfolding node_ok_def reachable_def by blast
  have rt: "reachable init t" using reachable_step[OF rc ts] .
  from hr rt obtain hv where hv: "h t goal = Inr hv" unfolding heuristic_returns_def by blast
  let ?kt = "state_to_tuple t"
  let ?skip = "?kt \<in> closed \<or> (case gs ?kt of None \<Rightarrow> False | Some g \<Rightarrow> g_cost cur + 1 \<ge> g)"
  show ?case
  proof (cases ?skip)
    case True
    have eq: "expand h goal cur closed (a # as) (opn, gs) = expand h goal cur closed as (opn, gs)"
      using True t by (auto simp: Let_def)
    from Cons.IH[OF rest Cons.prems(2) Cons.prems(3)] obtain opn' gs' where
      r: "expand h goal cur closed as (opn, gs) = Inr (opn', gs')"
      and o: "open_ok init goal h opn' gs'" and s: "scores_ok init opn' gs' closed"
      and e4: "\<forall>k \<in> closed. gs' k = gs k"
      and e5: "\<forall>k g. gs k = Some g \<longrightarrow> (\<exists>g'. gs' k = Some g' \<and> g' \<le> g)"
      and e6: "\<forall>a \<in> set as. \<forall>t. do_action (state cur) a = Inr t \<longrightarrow>
              state_to_tuple t \<in> closed \<or>
              (\<exists>g'. gs' (state_to_tuple t) = Some g' \<and> g' \<le> g_cost cur + 1)"
      by blast
    have here: "?kt \<in> closed \<or> (\<exists>g'. gs' ?kt = Some g' \<and> g' \<le> g_cost cur + 1)"
    proof (cases "?kt \<in> closed")
      case True
      then show ?thesis by simp
    next
      case False
      with True obtain g where g: "gs ?kt = Some g" "g \<le> g_cost cur + 1"
        by (auto split: option.splits)
      from e5 g(1) obtain g' where "gs' ?kt = Some g'" "g' \<le> g" by blast
      with g(2) show ?thesis by auto
    qed
    have e6': "\<forall>b \<in> set (a # as). \<forall>u. do_action (state cur) b = Inr u \<longrightarrow>
              state_to_tuple u \<in> closed \<or>
              (\<exists>g'. gs' (state_to_tuple u) = Some g' \<and> g' \<le> g_cost cur + 1)"
      using e6 here t by auto
    show ?thesis using eq r o s e4 e5 e6' by simp
  next
    case False
    then have nc: "?kt \<notin> closed"
      and better: "\<not> (case gs ?kt of None \<Rightarrow> False | Some g \<Rightarrow> g_cost cur + 1 \<ge> g)"
      by simp_all
    let ?nd = "Node t (Some cur) (Some a) (g_cost cur + 1) hv"
    let ?opn1 = "heappush opn ?nd"
    let ?gs1 = "gs(?kt \<mapsto> g_cost cur + 1)"
    have eq: "expand h goal cur closed (a # as) (opn, gs) = expand h goal cur closed as (?opn1, ?gs1)"
      using nc better t hv by (simp add: Let_def)
    from push_ok[OF sh cur ts hv Cons.prems(2) Cons.prems(3) better, of a]
    have o1: "open_ok init goal h ?opn1 ?gs1" and s1: "scores_ok init ?opn1 ?gs1 closed"
      by simp_all
    from Cons.IH[OF rest o1 s1] obtain opn' gs' where
      r: "expand h goal cur closed as (?opn1, ?gs1) = Inr (opn', gs')"
      and o: "open_ok init goal h opn' gs'" and s: "scores_ok init opn' gs' closed"
      and e4: "\<forall>k \<in> closed. gs' k = ?gs1 k"
      and e5: "\<forall>k g. ?gs1 k = Some g \<longrightarrow> (\<exists>g'. gs' k = Some g' \<and> g' \<le> g)"
      and e6: "\<forall>a \<in> set as. \<forall>t. do_action (state cur) a = Inr t \<longrightarrow>
              state_to_tuple t \<in> closed \<or>
              (\<exists>g'. gs' (state_to_tuple t) = Some g' \<and> g' \<le> g_cost cur + 1)"
      by blast
    have e4': "\<forall>k \<in> closed. gs' k = gs k" using e4 nc by auto
    have "?gs1 ?kt = Some (g_cost cur + 1)" by simp
    with e5 have here: "\<exists>g'. gs' ?kt = Some g' \<and> g' \<le> g_cost cur + 1" by blast
    have e5': "\<forall>k g. gs k = Some g \<longrightarrow> (\<exists>g'. gs' k = Some g' \<and> g' \<le> g)"
    proof (intro allI impI)
      fix k g assume g: "gs k = Some g"
      show "\<exists>g'. gs' k = Some g' \<and> g' \<le> g"
      proof (cases "k = ?kt")
        case True
        with g better have lt: "g_cost cur + 1 < g" by simp
        from here True obtain g' where "gs' k = Some g'" "g' \<le> g_cost cur + 1" by auto
        with lt show ?thesis by auto
      next
        case False
        with g e5 show ?thesis by auto
      qed
    qed
    have e6': "\<forall>b \<in> set (a # as). \<forall>u. do_action (state cur) b = Inr u \<longrightarrow>
              state_to_tuple u \<in> closed \<or>
              (\<exists>g'. gs' (state_to_tuple u) = Some g' \<and> g' \<le> g_cost cur + 1)"
      using e6 here t by auto
    show ?thesis using eq r o s e4' e5' e6' by simp
  qed
qed

subsection \<open>The popped node is the cheapest way to its state\<close>

lemma consistent_path:
  assumes hr: "heuristic_returns init goal h" and cons: "consistent init goal h"
  shows "reach_in j u s \<Longrightarrow> reachable init u \<Longrightarrow> h u goal = Inr hu \<Longrightarrow> h s goal = Inr hs \<Longrightarrow>
         hu \<le> hs + int j"
proof (induction j arbitrary: u hu)
  case 0
  then show ?case by simp
next
  case (Suc j)
  from Suc.prems(1) obtain t where t: "t \<in> set (successors u)" "reach_in j t s" by auto
  have rt: "reachable init t" using reachable_step[OF Suc.prems(2) t(1)] .
  from hr rt obtain ht where ht: "h t goal = Inr ht" unfolding heuristic_returns_def by blast
  from cons Suc.prems(2) t(1) Suc.prems(3) ht have "hu \<le> ht + 1"
    unfolding consistent_def by blast
  moreover from Suc.IH[OF t(2) rt ht Suc.prems(4)] have "ht \<le> hs + int j" .
  ultimately show ?case by simp
qed

lemma frontier:
  assumes sh: "has_shape n n init"
    and hr: "heuristic_returns init goal h" and cons: "consistent init goal h"
    and inv: "astar_inv init goal h c"
    and s: "state_to_tuple s \<notin> closed_set c" "h s goal = Inr hs"
  shows "reach_in j u s \<Longrightarrow> reachable init u \<Longrightarrow> g_scores c (state_to_tuple u) = Some gu \<Longrightarrow>
         \<exists>nd \<in> set (open_set c). f_cost nd \<le> gu + int j + hs"
proof (induction j arbitrary: u gu)
  case 0
  then have us: "u = s" by simp
  from inv have sc: "scores_ok init (open_set c) (g_scores c) (closed_set c)"
    and ok: "open_ok init goal h (open_set c) (g_scores c)"
    unfolding astar_inv_def by blast+
  from sc "0.prems"(2,3) s(1) us obtain nd where nd: "nd \<in> set (open_set c)" "state nd = s"
    "g_cost nd = gu" unfolding scores_ok_def by blast
  from ok nd(1) have "h (state nd) goal = Inr (h_cost nd)" unfolding open_ok_def node_ok_def by blast
  with nd(2) s(2) have "h_cost nd = hs" by simp
  with nd show ?case by (auto simp: f_cost_def)
next
  case (Suc j)
  from inv have sc: "scores_ok init (open_set c) (g_scores c) (closed_set c)"
    and ok: "open_ok init goal h (open_set c) (g_scores c)"
    and cl: "closed_ok init goal (g_scores c) (closed_set c)"
    unfolding astar_inv_def by blast+
  show ?case
  proof (cases "state_to_tuple u \<in> closed_set c")
    case False
    from sc Suc.prems(2,3) False obtain nd where nd: "nd \<in> set (open_set c)" "state nd = u"
      "g_cost nd = gu" unfolding scores_ok_def by blast
    from ok nd(1) have "h (state nd) goal = Inr (h_cost nd)"
      unfolding open_ok_def node_ok_def by blast
    then have hu: "h u goal = Inr (h_cost nd)" using nd(2) by simp
    from consistent_path[OF hr cons Suc.prems(1) Suc.prems(2) hu s(2)]
    have "h_cost nd \<le> hs + int (Suc j)" .
    then have "f_cost nd \<le> gu + int (Suc j) + hs" using nd(3) by (simp add: f_cost_def)
    with nd(1) show ?thesis by blast
  next
    case True
    from cl Suc.prems(2) True obtain d where d: "g_scores c (state_to_tuple u) = Some (int d)"
      "reach_in d init u"
      and succ: "\<forall>t \<in> set (successors u). state_to_tuple t \<in> closed_set c \<or>
          (\<exists>g'. g_scores c (state_to_tuple t) = Some g' \<and> g' \<le> int d + 1)"
      unfolding closed_ok_def by blast
    from d(1) Suc.prems(3) have gu: "gu = int d" by simp
    from Suc.prems(1) obtain t where t: "t \<in> set (successors u)" "reach_in j t s" by auto
    have rt: "reachable init t" using reachable_step[OF Suc.prems(2) t(1)] .
    have "\<exists>gt. g_scores c (state_to_tuple t) = Some gt \<and> gt \<le> gu + 1"
    proof (cases "state_to_tuple t \<in> closed_set c")
      case True
      from cl rt True obtain dt where dt: "g_scores c (state_to_tuple t) = Some (int dt)"
        "\<forall>j. reach_in j init t \<longrightarrow> dt \<le> j"
        unfolding closed_ok_def by blast
      have "reach_in (Suc d) init t" using reach_in_step[OF d(2) t(1)] .
      with dt(2) have "dt \<le> Suc d" by blast
      with dt(1) gu show ?thesis by simp
    next
      case False
      with succ t(1) gu show ?thesis by blast
    qed
    then obtain gt where gt: "g_scores c (state_to_tuple t) = Some gt" "gt \<le> gu + 1" by blast
    from Suc.IH[OF t(2) rt gt(1)] obtain nd where "nd \<in> set (open_set c)"
      "f_cost nd \<le> gt + int j + hs" by blast
    with gt(2) show ?thesis by (intro bexI[of _ nd]) simp_all
  qed
qed

lemma pop_optimal:
  assumes sh: "has_shape n n init"
    and hr: "heuristic_returns init goal h" and cons: "consistent init goal h"
    and inv: "astar_inv init goal h c"
    and pop: "heappop (open_set c) = Some (cur, rest)"
    and fresh: "state_to_tuple (state cur) \<notin> closed_set c"
    and j: "reach_in j init (state cur)"
  shows "g_cost cur \<le> int j"
proof -
  from inv have ok: "open_ok init goal h (open_set c) (g_scores c)"
    and g0: "\<exists>g. g_scores c (state_to_tuple init) = Some g \<and> g \<le> 0"
    unfolding astar_inv_def by blast+
  from ok have hp: "heap_inv (open_set c)" unfolding open_ok_def by blast
  note hf = heappop_facts[OF hp pop]
  have cin: "cur \<in> set (open_set c)" using hf(4) by simp
  with ok have hc: "h (state cur) goal = Inr (h_cost cur)" unfolding open_ok_def node_ok_def by blast
  from g0 obtain g where g: "g_scores c (state_to_tuple init) = Some g" "g \<le> 0" by blast
  have ri: "reachable init init" unfolding reachable_def by (intro exI[of _ 0]) simp
  from frontier[OF sh hr cons inv fresh hc j ri g(1)] obtain nd where
    nd: "nd \<in> set (open_set c)" "f_cost nd \<le> g + int j + h_cost cur" by blast
  from hf(3) nd(1) have "f_cost cur \<le> f_cost nd" by blast
  with nd(2) g(2) show ?thesis by (simp add: f_cost_def)
qed

subsection \<open>One pass of the loop keeps the invariant\<close>

lemma astar_inv_init:
  assumes sh: "has_shape n n init" and hv: "h init goal = Inr hv"
  shows "astar_inv init goal h (init_ctx init hv)"
proof -
  let ?n0 = "Node init None None 0 hv"
  have ri: "reachable init init" unfolding reachable_def by (intro exI[of _ 0]) simp
  have n0: "node_ok init goal h ?n0" unfolding node_ok_def using hv by (intro exI[of _ 0]) simp
  have "open_ok init goal h [?n0] [state_to_tuple init \<mapsto> (0::int)]"
    unfolding open_ok_def using n0 by (simp add: heap_inv_def)
  moreover have "scores_ok init [?n0] [state_to_tuple init \<mapsto> (0::int)] {}"
    unfolding scores_ok_def
  proof (intro allI impI)
    fix s g
    assume a: "reachable init s \<and> [state_to_tuple init \<mapsto> (0::int)] (state_to_tuple s) = Some g \<and>
               state_to_tuple s \<notin> {}"
    then have k: "state_to_tuple s = state_to_tuple init" and g: "g = 0"
      by (auto split: if_splits)
    from reachable_key_inj[OF sh _ ri k] a have "s = init" by blast
    with g show "\<exists>nd \<in> set [?n0]. state nd = s \<and> g_cost nd = g" by simp
  qed
  moreover have "closed_ok init goal [state_to_tuple init \<mapsto> (0::int)] {}"
    unfolding closed_ok_def by simp
  ultimately show ?thesis by (simp add: astar_inv_def init_ctx_def)
qed

lemma astar_inv_stale:
  assumes inv: "astar_inv init goal h c"
    and pop: "heappop (open_set c) = Some (cur, rest)"
    and stale: "state_to_tuple (state cur) \<in> closed_set c"
  shows "astar_inv init goal h (c\<lparr>open_set := rest\<rparr>)"
proof -
  from inv have ok: "open_ok init goal h (open_set c) (g_scores c)"
    and sc: "scores_ok init (open_set c) (g_scores c) (closed_set c)"
    and cl: "closed_ok init goal (g_scores c) (closed_set c)"
    and g0: "\<exists>g. g_scores c (state_to_tuple init) = Some g \<and> g \<le> 0"
    unfolding astar_inv_def by blast+
  from ok have hp: "heap_inv (open_set c)" unfolding open_ok_def by blast
  note hf = heappop_facts[OF hp pop]
  have ok': "open_ok init goal h rest (g_scores c)"
    using ok hf(2) hf(4) unfolding open_ok_def by blast
  have sc': "scores_ok init rest (g_scores c) (closed_set c)"
    unfolding scores_ok_def
  proof (intro allI impI)
    fix s g
    assume a: "reachable init s \<and> g_scores c (state_to_tuple s) = Some g \<and>
               state_to_tuple s \<notin> closed_set c"
    with sc obtain nd where nd: "nd \<in> set (open_set c)" "state nd = s" "g_cost nd = g"
      unfolding scores_ok_def by blast
    have "nd \<noteq> cur" using nd(2) a stale by auto
    with nd(1) hf(4) have "nd \<in> set rest" by simp
    with nd show "\<exists>nd \<in> set rest. state nd = s \<and> g_cost nd = g" by blast
  qed
  show ?thesis using ok' sc' cl g0 by (simp add: astar_inv_def)
qed

lemma expansion_actions:
  assumes sh: "has_shape n n init" and blank: "0 \<in> set (concat init)"
    and r: "reachable init s"
  shows "\<exists>acts. available_actions s = Inr acts \<and>
           (\<forall>a \<in> set acts. \<exists>t. do_action s a = Inr t \<and> t \<in> set (successors s))"
proof -
  from reachable_shape[OF sh r] blank have shs: "has_shape n n s" and b: "0 \<in> set (concat s)"
    by simp_all
  from available_actions_succeed[OF shs b] obtain acts where
    acts: "available_actions s = Inr acts" "\<forall>a \<in> set acts. \<exists>t. do_action s a = Inr t" by blast
  have "\<exists>t. do_action s a = Inr t \<and> t \<in> set (successors s)" if a: "a \<in> set acts" for a
  proof -
    from acts(2) a obtain t where t: "do_action s a = Inr t" by blast
    then have "t \<in> set (successors s)" using acts(1) a by (auto simp: successors_iff)
    with t show ?thesis by blast
  qed
  with acts(1) show ?thesis by blast
qed

lemma astar_inv_expanded:
  assumes sh: "has_shape n n init" and blank: "0 \<in> set (concat init)"
    and hr: "heuristic_returns init goal h" and cons: "consistent init goal h"
    and inv: "astar_inv init goal h c"
    and pop: "heappop (open_set c) = Some (cur, rest)"
    and fresh: "state_to_tuple (state cur) \<notin> closed_set c"
    and ng: "state cur \<noteq> goal"
    and acts: "available_actions (state cur) = Inr acts"
  shows "\<exists>opn gs. expand h goal cur (insert (state_to_tuple (state cur)) (closed_set c)) acts
             (rest, g_scores c) = Inr (opn, gs) \<and>
           astar_inv init goal h
             \<lparr>open_set = opn, g_scores = gs,
              closed_set = insert (state_to_tuple (state cur)) (closed_set c),
              states_evaluated = ev\<rparr>"
proof -
  let ?kc = "state_to_tuple (state cur)"
  let ?closed = "insert ?kc (closed_set c)"
  from inv have ok: "open_ok init goal h (open_set c) (g_scores c)"
    and sc: "scores_ok init (open_set c) (g_scores c) (closed_set c)"
    and cl: "closed_ok init goal (g_scores c) (closed_set c)"
    and g0: "\<exists>g. g_scores c (state_to_tuple init) = Some g \<and> g \<le> 0"
    unfolding astar_inv_def by blast+
  from ok have hp: "heap_inv (open_set c)" unfolding open_ok_def by blast
  note hf = heappop_facts[OF hp pop]
  have cin: "cur \<in> set (open_set c)" using hf(4) by simp
  from ok cin have cur_ok: "node_ok init goal h cur"
    and cur_g: "\<exists>g. g_scores c ?kc = Some g \<and> g \<le> g_cost cur"
    unfolding open_ok_def by blast+
  from cur_ok obtain k where k: "g_cost cur = int k" "reach_in k init (state cur)"
    unfolding node_ok_def by blast
  have rc: "reachable init (state cur)" unfolding reachable_def using k(2) by blast
  have opt: "\<forall>j. reach_in j init (state cur) \<longrightarrow> k \<le> j"
    using pop_optimal[OF sh hr cons inv pop fresh] k(1) by auto
  from expansion_actions[OF sh blank rc] acts
  have succ_acts: "\<forall>a \<in> set acts. \<exists>t. do_action (state cur) a = Inr t \<and>
      t \<in> set (successors (state cur))" by simp
  have ok_rest: "open_ok init goal h rest (g_scores c)"
    using ok hf(2) hf(4) unfolding open_ok_def by blast
  have sc_rest: "scores_ok init rest (g_scores c) ?closed"
    unfolding scores_ok_def
  proof (intro allI impI)
    fix s g
    assume a: "reachable init s \<and> g_scores c (state_to_tuple s) = Some g \<and>
               state_to_tuple s \<notin> ?closed"
    with sc obtain nd where nd: "nd \<in> set (open_set c)" "state nd = s" "g_cost nd = g"
      unfolding scores_ok_def by blast
    have "nd \<noteq> cur" using nd(2) a by auto
    with nd(1) hf(4) have "nd \<in> set rest" by simp
    with nd show "\<exists>nd \<in> set rest. state nd = s \<and> g_cost nd = g" by blast
  qed
  from expand_correct[OF sh hr cur_ok succ_acts ok_rest sc_rest] obtain opn gs where
    ex: "expand h goal cur ?closed acts (rest, g_scores c) = Inr (opn, gs)"
    and ok': "open_ok init goal h opn gs" and sc': "scores_ok init opn gs ?closed"
    and e4: "\<forall>key \<in> ?closed. gs key = g_scores c key"
    and e5: "\<forall>key g. g_scores c key = Some g \<longrightarrow> (\<exists>g'. gs key = Some g' \<and> g' \<le> g)"
    and e6: "\<forall>a \<in> set acts. \<forall>t. do_action (state cur) a = Inr t \<longrightarrow>
              state_to_tuple t \<in> ?closed \<or>
              (\<exists>g'. gs (state_to_tuple t) = Some g' \<and> g' \<le> g_cost cur + 1)"
    by blast
  have cur_score: "g_scores c ?kc = Some (int k)"
  proof -
    from cur_g obtain g where g: "g_scores c ?kc = Some g" "g \<le> g_cost cur" by blast
    from sc rc g(1) fresh obtain nd where nd: "nd \<in> set (open_set c)" "state nd = state cur"
      "g_cost nd = g" unfolding scores_ok_def by blast
    from ok nd(1) obtain j where j: "g_cost nd = int j" "reach_in j init (state nd)"
      unfolding open_ok_def node_ok_def by blast
    with opt nd(2) have "k \<le> j" by simp
    with j(1) nd(3) g(2) k(1) have "g = int k" by simp
    with g(1) show ?thesis by simp
  qed
  have cl': "closed_ok init goal gs ?closed"
    unfolding closed_ok_def
  proof (intro conjI ballI allI impI)
    fix key assume "key \<in> ?closed"
    then show "\<exists>s. reachable init s \<and> state_to_tuple s = key"
      using rc cl unfolding closed_ok_def by auto
  next
    fix s assume a: "reachable init s \<and> state_to_tuple s \<in> ?closed"
    show "s \<noteq> goal"
    proof (cases "state_to_tuple s = ?kc")
      case True
      with reachable_key_inj[OF sh _ rc] a have "s = state cur" by blast
      with ng show ?thesis by simp
    next
      case False
      with a cl show ?thesis unfolding closed_ok_def by auto
    qed
  next
    fix s assume a: "reachable init s \<and> state_to_tuple s \<in> ?closed"
    show "\<exists>d. gs (state_to_tuple s) = Some (int d) \<and> reach_in d init s \<and>
              (\<forall>j. reach_in j init s \<longrightarrow> d \<le> j) \<and>
              (\<forall>t \<in> set (successors s).
                 state_to_tuple t \<in> ?closed \<or>
                 (\<exists>g'. gs (state_to_tuple t) = Some g' \<and> g' \<le> int d + 1))"
    proof (cases "state_to_tuple s = ?kc")
      case True
      with reachable_key_inj[OF sh _ rc] a have s: "s = state cur" by blast
      have g: "gs (state_to_tuple s) = Some (int k)" using e4 cur_score s by simp
      have su: "\<forall>t \<in> set (successors s). state_to_tuple t \<in> ?closed \<or>
                 (\<exists>g'. gs (state_to_tuple t) = Some g' \<and> g' \<le> int k + 1)"
      proof
        fix t assume "t \<in> set (successors s)"
        then obtain b where "b \<in> set acts" "do_action (state cur) b = Inr t"
          using acts s by (auto simp: successors_iff)
        with e6 k(1) show "state_to_tuple t \<in> ?closed \<or>
                 (\<exists>g'. gs (state_to_tuple t) = Some g' \<and> g' \<le> int k + 1)" by auto
      qed
      show ?thesis using g k(2) opt su s by blast
    next
      case False
      with a have old: "state_to_tuple s \<in> closed_set c" by simp
      with a cl obtain d where d: "g_scores c (state_to_tuple s) = Some (int d)"
        "reach_in d init s" "\<forall>j. reach_in j init s \<longrightarrow> d \<le> j"
        and su: "\<forall>t \<in> set (successors s). state_to_tuple t \<in> closed_set c \<or>
                 (\<exists>g'. g_scores c (state_to_tuple t) = Some g' \<and> g' \<le> int d + 1)"
        unfolding closed_ok_def by blast
      have g: "gs (state_to_tuple s) = Some (int d)" using e4 old d(1) by simp
      have su': "\<forall>t \<in> set (successors s). state_to_tuple t \<in> ?closed \<or>
                 (\<exists>g'. gs (state_to_tuple t) = Some g' \<and> g' \<le> int d + 1)"
      proof
        fix t assume "t \<in> set (successors s)"
        with su consider "state_to_tuple t \<in> closed_set c"
          | g' where "g_scores c (state_to_tuple t) = Some g'" "g' \<le> int d + 1" by blast
        then show "state_to_tuple t \<in> ?closed \<or>
                 (\<exists>g'. gs (state_to_tuple t) = Some g' \<and> g' \<le> int d + 1)"
        proof cases
          case 1
          then show ?thesis by simp
        next
          case 2
          from e5 2(1) obtain g'' where "gs (state_to_tuple t) = Some g''" "g'' \<le> g'" by blast
          with 2(2) show ?thesis by auto
        qed
      qed
      show ?thesis using g d(2,3) su' by blast
    qed
  qed
  have g0': "\<exists>g. gs (state_to_tuple init) = Some g \<and> g \<le> 0"
  proof -
    from g0 obtain g where g: "g_scores c (state_to_tuple init) = Some g" "g \<le> 0" by blast
    from e5 g(1) obtain g' where "gs (state_to_tuple init) = Some g'" "g' \<le> g" by blast
    with g(2) show ?thesis by auto
  qed
  have "astar_inv init goal h
             \<lparr>open_set = opn, g_scores = gs, closed_set = ?closed, states_evaluated = ev\<rparr>"
    using ok' sc' cl' g0' by (simp add: astar_inv_def)
  with ex show ?thesis by blast
qed

subsection \<open>The loop ends at the goal\<close>

lemma astar_inv_step:
  assumes sh: "has_shape n n init" and blank: "0 \<in> set (concat init)"
    and hr: "heuristic_returns init goal h" and cons: "consistent init goal h"
    and inv: "astar_inv init goal h c"
    and step: "solve_step h goal c = Inl c'"
  shows "astar_inv init goal h c'"
proof (cases rule: solve_step_cases[of c h goal])
  case empty
  with step show ?thesis by simp
next
  case (stale cur rest)
  from astar_inv_stale[OF inv stale(1,2)] stale(3) step show ?thesis by simp
next
  case (found cur rest)
  with step show ?thesis by simp
next
  case (no_actions cur rest e c'')
  with step show ?thesis by simp
next
  case (raised cur rest acts e c'')
  with step show ?thesis by simp
next
  case (expanded cur rest acts opn gs)
  from astar_inv_expanded[OF sh blank hr cons inv expanded(1,2,3,4), of "states_evaluated c + 1"]
    expanded(5,6) step
  show ?thesis by auto
qed

lemma astar_inv_reaches:
  assumes sh: "has_shape n n init" and blank: "0 \<in> set (concat init)"
    and hr: "heuristic_returns init goal h" and cons: "consistent init goal h"
  shows "loop_reaches h goal c c' \<Longrightarrow> astar_inv init goal h c \<Longrightarrow> astar_inv init goal h c'"
proof (induction rule: loop_reaches.induct)
  case (loop_refl c)
  then show ?case by simp
next
  case (loop_step c c1 c2)
  from astar_inv_step[OF sh blank hr cons loop_step.IH[OF loop_step.prems] loop_step.hyps(2)]
  show ?case .
qed

lemma goal_not_closed:
  assumes inv: "astar_inv init goal h c" and r: "reachable init goal"
  shows "state_to_tuple goal \<notin> closed_set c"
proof
  assume "state_to_tuple goal \<in> closed_set c"
  with inv r have "goal \<noteq> goal" unfolding astar_inv_def closed_ok_def by blast
  then show False by simp
qed

lemma found_optimal:
  assumes sh: "has_shape n n init"
    and hr: "heuristic_returns init goal h" and cons: "consistent init goal h"
    and inv: "astar_inv init goal h c"
    and pop: "heappop (open_set c) = Some (cur, rest)"
    and goal: "state cur = goal"
  shows "\<exists>d. g_cost cur = int d \<and> depth cur = d \<and> optimal_distance init goal d"
proof -
  from inv have ok: "open_ok init goal h (open_set c) (g_scores c)"
    unfolding astar_inv_def by blast
  from ok have hp: "heap_inv (open_set c)" unfolding open_ok_def by blast
  note hf = heappop_facts[OF hp pop]
  have cin: "cur \<in> set (open_set c)" using hf(4) by simp
  with ok obtain d where d: "g_cost cur = int d" "depth cur = d" "reach_in d init (state cur)"
    unfolding open_ok_def node_ok_def by blast
  have r: "reachable init goal" unfolding reachable_def using d(3) goal by blast
  have fresh: "state_to_tuple (state cur) \<notin> closed_set c"
    using goal_not_closed[OF inv r] goal by simp
  have "\<forall>j. reach_in j init goal \<longrightarrow> d \<le> j"
    using pop_optimal[OF sh hr cons inv pop fresh] d(1) goal by auto
  with d goal show ?thesis unfolding optimal_distance_def by blast
qed

lemma optimal_distance_unique:
  "optimal_distance s t d \<Longrightarrow> optimal_distance s t d' \<Longrightarrow> d = d'"
  unfolding optimal_distance_def by (meson le_antisym)

lemma length_concat_shape: "has_shape m n s \<Longrightarrow> length (concat s) = m * n"
proof (induction s arbitrary: m)
  case Nil
  then show ?case by (simp add: has_shape_def)
next
  case (Cons r rs)
  from Cons.prems have lr: "length r = n" and sh: "has_shape (m - 1) n rs" and m: "m = Suc (length rs)"
    by (auto simp: has_shape_def)
  from Cons.IH[OF sh] lr m show ?case by simp
qed

lemma finite_key_universe: "finite (key_universe n init)"
  unfolding key_universe_def by (rule finite_lists_length_eq) simp

lemma reachable_key_universe:
  assumes "has_shape n n init" "reachable init s"
  shows "state_to_tuple s \<in> key_universe n init"
  using reachable_shape[OF assms] length_concat_shape[of n n s]
  by (simp add: key_universe_def state_to_tuple_def)

lemma closed_in_universe:
  assumes sh: "has_shape n n init" and inv: "astar_inv init goal h c"
  shows "closed_set c \<subseteq> key_universe n init"
proof
  fix k assume "k \<in> closed_set c"
  with inv obtain s where "reachable init s" "state_to_tuple s = k"
    unfolding astar_inv_def closed_ok_def by blast
  with reachable_key_universe[OF sh] show "k \<in> key_universe n init" by blast
qed

lemma loop_finds_goal:
  assumes sh: "has_shape n n init" and blank: "0 \<in> set (concat init)"
    and hr: "heuristic_returns init goal h" and cons: "consistent init goal h"
    and solvable: "reach_in k0 init goal"
  shows "astar_inv init goal h c \<Longrightarrow>
         \<exists>c1 cur rest. loop_reaches h goal c c1 \<and> astar_inv init goal h c1 \<and>
            heappop (open_set c1) = Some (cur, rest) \<and> state cur = goal \<and>
            state_to_tuple (state cur) \<notin> closed_set c1"
proof (induction c rule: wf_induct_rule[OF wf_measures[of
         "[\<lambda>c. card (key_universe n init - closed_set c), \<lambda>c. length (open_set c)]"]])
  case (1 c)
  note inv = "1.prems"
  have rg: "reachable init goal" unfolding reachable_def using solvable by blast
  have gnc: "state_to_tuple goal \<notin> closed_set c" using goal_not_closed[OF inv rg] .
  show ?case
  proof (cases rule: solve_step_cases[of c h goal])
    case empty
    from hr rg obtain hg where hg: "h goal goal = Inr hg" unfolding heuristic_returns_def by blast
    from inv obtain g where g: "g_scores c (state_to_tuple init) = Some g"
      unfolding astar_inv_def by blast
    have ri: "reachable init init" unfolding reachable_def by (intro exI[of _ 0]) simp
    from frontier[OF sh hr cons inv gnc hg solvable ri g] empty(1) show ?thesis by simp
  next
    case (stale cur rest)
    let ?c' = "c\<lparr>open_set := rest\<rparr>"
    have inv': "astar_inv init goal h ?c'" using astar_inv_stale[OF inv stale(1,2)] .
    from inv have hp: "heap_inv (open_set c)" unfolding astar_inv_def open_ok_def by blast
    from heappop_facts(5)[OF hp stale(1)] have "length rest < length (open_set c)" by simp
    then have less: "(?c', c) \<in> measures [\<lambda>c. card (key_universe n init - closed_set c),
                                     \<lambda>c. length (open_set c)]" by simp
    from "1.IH"[OF less inv'] obtain c1 cur1 rest1 where
      r: "loop_reaches h goal ?c' c1" and rest: "astar_inv init goal h c1"
        "heappop (open_set c1) = Some (cur1, rest1)" "state cur1 = goal"
        "state_to_tuple (state cur1) \<notin> closed_set c1" by blast
    from loop_reaches_first[OF r stale(3)] rest show ?thesis by blast
  next
    case (found cur rest)
    from loop_refl[of h goal c] inv found(1,2,3) show ?thesis by blast
  next
    case (no_actions cur rest e c'')
    from inv have ok: "open_ok init goal h (open_set c) (g_scores c)"
      unfolding astar_inv_def by blast
    then have hp: "heap_inv (open_set c)" unfolding open_ok_def by blast
    from heappop_facts(4)[OF hp no_actions(1)] ok have "reachable init (state cur)"
      unfolding open_ok_def node_ok_def reachable_def by blast
    from expansion_actions[OF sh blank this] no_actions(4) show ?thesis by simp
  next
    case (raised cur rest acts e c'')
    from astar_inv_expanded[OF sh blank hr cons inv raised(1,2,3,4), of 0] raised(5)
    show ?thesis by simp
  next
    case (expanded cur rest acts opn gs)
    let ?kc = "state_to_tuple (state cur)"
    let ?c' = "\<lparr>open_set = opn, g_scores = gs, closed_set = insert ?kc (closed_set c),
               states_evaluated = states_evaluated c + 1\<rparr>"
    have inv': "astar_inv init goal h ?c'"
      using astar_inv_step[OF sh blank hr cons inv expanded(6)] .
    have sub: "closed_set ?c' \<subseteq> key_universe n init" using closed_in_universe[OF sh inv'] .
    then have kin: "?kc \<in> key_universe n init" by simp
    have "key_universe n init - closed_set ?c' \<subset> key_universe n init - closed_set c"
      using kin expanded(2) by auto
    then have "card (key_universe n init - closed_set ?c') < card (key_universe n init - closed_set c)"
      using finite_key_universe[of n init] by (intro psubset_card_mono) simp_all
    then have less: "(?c', c) \<in> measures [\<lambda>c. card (key_universe n init - closed_set c),
                                     \<lambda>c. length (open_set c)]" by simp
    from "1.IH"[OF less inv'] obtain c1 cur1 rest1 where
      r: "loop_reaches h goal ?c' c1" and rest: "astar_inv init goal h c1"
        "heappop (open_set c1) = Some (cur1, rest1)" "state cur1 = goal"
        "state_to_tuple (state cur1) \<notin> closed_set c1" by blast
    from loop_reaches_first[OF r expanded(6)] rest show ?thesis by blast
  qed
qed

text \<open>
  Claim C1. Let the initial state be a square array holding a blank, let the goal be
  reachable from it by legal moves, and let the heuristic return a value on every
  reachable state and be consistent there (admissibility is not needed on top of
  that). Then there is a shortest-path distance \<open>d\<close> from the initial state to the
  goal such that: whenever the loop, not yet left, pops a node whose state is the goal,
  that node's \<open>g_cost\<close> is \<open>d\<close>; and \<open>solve\<close> returns, with a path of \<open>d + 1\<close> entries
  and the move count \<open>d\<close>.
\<close>

theorem astar_optimal:
  assumes sh: "has_shape n n initial_state" and blank: "0 \<in> set (concat initial_state)"
    and hr: "heuristic_returns initial_state goal h"
    and cons: "consistent initial_state goal h"
    and solvable: "reach_in k initial_state goal"
  shows "\<exists>d hv. optimal_distance initial_state goal d \<and> h initial_state goal = Inr hv \<and>
     (\<forall>c cur rest. loop_reaches h goal (init_ctx initial_state hv) c \<and>
        heappop (open_set c) = Some (cur, rest) \<and> state cur = goal \<longrightarrow> g_cost cur = int d) \<and>
     (\<exists>path ev. solve initial_state goal h = Some (Inr (Some path, int d, ev)) \<and>
        length path = d + 1)"
proof -
  have ri: "reachable initial_state initial_state"
    unfolding reachable_def by (intro exI[of _ 0]) simp
  from hr ri obtain hv where hv: "h initial_state goal = Inr hv"
    unfolding heuristic_returns_def by blast
  let ?c0 = "init_ctx initial_state hv"
  have inv0: "astar_inv initial_state goal h ?c0" using astar_inv_init[where h=h, OF sh hv] .
  from loop_finds_goal[OF sh blank hr cons solvable inv0] obtain c1 cur rest where
    r: "loop_reaches h goal ?c0 c1" and inv1: "astar_inv initial_state goal h c1"
    and pop: "heappop (open_set c1) = Some (cur, rest)" and g: "state cur = goal"
    and fresh: "state_to_tuple (state cur) \<notin> closed_set c1" by blast
  from found_optimal[OF sh hr cons inv1 pop g] obtain d where
    d: "g_cost cur = int d" "depth cur = d" "optimal_distance initial_state goal d" by blast
  have first: "g_cost cur' = int d"
    if a: "loop_reaches h goal ?c0 c \<and> heappop (open_set c) = Some (cur', rest') \<and>
           state cur' = goal" for c cur' rest'
  proof -
    from a have inv: "astar_inv initial_state goal h c"
      using astar_inv_reaches[OF sh blank hr cons _ inv0] by blast
    from found_optimal[OF sh hr cons inv] a obtain d' where
      "g_cost cur' = int d'" "optimal_distance initial_state goal d'" by blast
    with optimal_distance_unique[OF d(3)] show ?thesis by simp
  qed
  let ?path = "reconstruct_path cur"
  have len: "length ?path = d + 1"
    using d(2) by (simp add: reconstruct_path_def length_path_to_start)
  have step: "solve_step h goal c1 =
         Inr (Inr (Some ?path, int (length ?path) - 1, states_evaluated c1 + 1),
              c1\<lparr>open_set := rest, states_evaluated := states_evaluated c1 + 1\<rparr>)"
    using pop fresh g by (simp add: solve_step_def Let_def)
  have "solve_loop h goal ?c0 = solve_loop h goal c1" using solve_loop_reaches[OF r] .
  also have "\<dots> = Some (Inr (Some ?path, int (length ?path) - 1, states_evaluated c1 + 1),
              c1\<lparr>open_set := rest, states_evaluated := states_evaluated c1 + 1\<rparr>)"
    by (subst solve_loop.simps) (simp add: step)
  finally have "solve initial_state goal h =
      Some (Inr (Some ?path, int d, states_evaluated c1 + 1))"
    using len by (simp add: solve_def solve_run_def hv)
  with d(3) hv first len show ?thesis by blast
qed

subsection \<open>An instance on the 2 x 2 board\<close>

lemma small_states_closed: "\<forall>s \<in> set small_states. set (successors s) \<subseteq> set small_states"
  unfolding small_states_def by code_simp

lemma small_states_reach:
  "reach_in k s t \<Longrightarrow> s \<in> set small_states \<Longrightarrow> t \<in> set small_states"
proof (induction k arbitrary: s)
  case 0
  then show ?case by simp
next
  case (Suc k)
  from Suc.prems(1) obtain u where u: "u \<in> set (successors s)" "reach_in k u t" by auto
  from small_states_closed Suc.prems(2) u(1) have "u \<in> set small_states" by blast
  from Suc.IH[OF u(2) this] show ?case .
qed

lemma small_reachable:
  "reachable [[0, 2], [1, 3]] s \<Longrightarrow> s \<in> set small_states"
proof -
  assume "reachable [[0, 2], [1, 3]] s"
  then obtain k where k: "reach_in k [[0, 2], [1, 3]] s" unfolding reachable_def by blast
  have "[[0, 2], [1, 3]] \<in> set small_states" by (simp add: small_states_def)
  from small_states_reach[OF k this] show ?thesis .
qed

lemma small_manhattan_checked:
  "\<forall>s \<in> set small_states. \<forall>t \<in> set (successors s).
     (case (manhattan_distance s [[1, 2], [3, 0]], manhattan_distance t [[1, 2], [3, 0]]) of
        (Inr v, Inr w) \<Rightarrow> v \<le> w + 1 | _ \<Rightarrow> False)"
  unfolding small_states_def by code_simp

lemma small_manhattan_returns_checked:
  "\<forall>s \<in> set small_states.
     (case manhattan_distance s [[1, 2], [3, 0]] of Inr v \<Rightarrow> True | Inl e \<Rightarrow> False)"
  unfolding small_states_def by code_simp

lemma small_heuristic_returns:
  "heuristic_returns [[0, 2], [1, 3]] [[1, 2], [3, 0]] manhattan_distance"
  unfolding heuristic_returns_def
proof (intro allI impI)
  fix s assume "reachable [[0, 2], [1, 3]] s"
  then have "s \<in> set small_states" by (rule small_reachable)
  with small_manhattan_returns_checked
  have "case manhattan_distance s [[1, 2], [3, 0]] of Inr v \<Rightarrow> True | Inl e \<Rightarrow> False"
    by blast
  then show "\<exists>v. manhattan_distance s [[1, 2], [3, 0]] = Inr v"
    by (cases "manhattan_distance s [[1, 2], [3, 0]]") simp_all
qed

lemma small_consistent:
  "consistent [[0, 2], [1, 3]] [[1, 2], [3, 0]] manhattan_distance"
  unfolding consistent_def
proof (intro allI impI)
  fix s t v w
  assume a: "reachable [[0, 2], [1, 3]] s \<and> t \<in> set (successors s) \<and>
             manhattan_distance s [[1, 2], [3, 0]] = Inr v \<and>
             manhattan_distance t [[1, 2], [3, 0]] = Inr w"
  then have "s \<in> set small_states" using small_reachable by blast
  with small_manhattan_checked a show "v \<le> w + 1" by fastforce
qed

lemma small_solvable: "reach_in 2 [[0, 2], [1, 3]] [[1, 2], [3, 0]]"
  by code_simp

lemma small_solve:
  "solve [[0, 2], [1, 3]] [[1, 2], [3, 0]] manhattan_distance =
     Some (Inr (Some [([[0, 2], [1, 3]], None),
                      ([[1, 2], [0, 3]], Some (Action (0, 0) (1, 0))),
                      ([[1, 2], [3, 0]], Some (Action (1, 0) (1, 1)))], 2, 3))"
  by code_simp

theorem astar_optimal_witness:
  "has_shape 2 2 [[0, 2], [1, 3]] \<and> 0 \<in> set (concat [[0, 2], [1, 3::int]]) \<and>
   heuristic_returns [[0, 2], [1, 3]] [[1, 2], [3, 0]] manhattan_distance \<and>
   consistent [[0, 2], [1, 3]] [[1, 2], [3, 0]] manhattan_distance \<and>
   reach_in 2 [[0, 2], [1, 3]] [[1, 2], [3, 0]] \<and>
   optimal_distance [[0, 2], [1, 3]] [[1, 2], [3, 0]] 2 \<and>
   solve [[0, 2], [1, 3]] [[1, 2], [3, 0]] manhattan_distance =
     Some (Inr (Some [([[0, 2], [1, 3]], None),
                      ([[1, 2], [0, 3]], Some (Action (0, 0) (1, 0))),
                      ([[1, 2], [3, 0]], Some (Action (1, 0) (1, 1)))], 2, 3))"
proof -
  have sh: "has_shape 2 2 [[0, 2], [1, 3]]" by (simp add: has_shape_def)
  have blank: "0 \<in> set (concat [[0, 2], [1, 3::int]])" by simp
  from astar_optimal[OF sh blank small_heuristic_returns small_consistent small_solvable]
  obtain d path ev where d: "optimal_distance [[0, 2], [1, 3]] [[1, 2], [3, 0]] d"
    and s: "solve [[0, 2], [1, 3]] [[1, 2], [3, 0]] manhattan_distance =
              Some (Inr (Some path, int d, ev))"
    by blast
  from s small_solve have "int d = 2" by simp
  then have "d = 2" by simp
  with d sh blank small_heuristic_returns small_consistent small_solvable small_solve
  show ?thesis by blast
qed

end
